theory Spec2Isabelle
  imports Complex_Main
begin

section \<open>JavaScript strings\<close>

text \<open>
  A JavaScript string is a sequence of UTF-16 code units, and every operation the
  program uses (\<^verbatim>\<open>length\<close>, \<^verbatim>\<open>substring\<close>, regular expressions without the
  \<^verbatim>\<open>u\<close> flag) counts and compares code units. A string is therefore a list of
  code units, each given by its number: the program compares code units and never
  computes with them, so that the numbers from 0 to 65535 are taken among the natural
  numbers. \<open>ustr\<close> turns an ASCII literal into such a list.
\<close>

type_synonym jschar = nat
type_synonym jsstring = "jschar list"

definition cu :: "char \<Rightarrow> jschar" where
  "cu c = of_char c"

definition ustr :: "string \<Rightarrow> jsstring" where
  "ustr s = map cu s"

abbreviation FILLER :: jschar where "FILLER \<equiv> 0x3C"   \<comment> \<open>\<^verbatim>\<open><\<close>\<close>
abbreviation SPACE :: jschar where "SPACE \<equiv> 0x20"
abbreviation DASH :: jschar where "DASH \<equiv> 0x2D"      \<comment> \<open>\<^verbatim>\<open>-\<close>\<close>
abbreviation PLUS :: jschar where "PLUS \<equiv> 0x2B"
abbreviation NEWLINE :: jschar where "NEWLINE \<equiv> 0x0A"
abbreviation LETTER_A :: jschar where "LETTER_A \<equiv> 0x41"
abbreviation LETTER_C :: jschar where "LETTER_C \<equiv> 0x43"
abbreviation LETTER_E :: jschar where "LETTER_E \<equiv> 0x45"
abbreviation LETTER_F :: jschar where "LETTER_F \<equiv> 0x46"
abbreviation LETTER_I :: jschar where "LETTER_I \<equiv> 0x49"
abbreviation LETTER_L :: jschar where "LETTER_L \<equiv> 0x4C"
abbreviation LETTER_M :: jschar where "LETTER_M \<equiv> 0x4D"
abbreviation LETTER_O :: jschar where "LETTER_O \<equiv> 0x4F"
abbreviation LETTER_P :: jschar where "LETTER_P \<equiv> 0x50"
abbreviation LETTER_S :: jschar where "LETTER_S \<equiv> 0x53"
abbreviation LETTER_Z :: jschar where "LETTER_Z \<equiv> 0x5A"
abbreviation DIGIT_0 :: jschar where "DIGIT_0 \<equiv> 0x30"
abbreviation DIGIT_1 :: jschar where "DIGIT_1 \<equiv> 0x31"
abbreviation DIGIT_2 :: jschar where "DIGIT_2 \<equiv> 0x32"
abbreviation DIGIT_5 :: jschar where "DIGIT_5 \<equiv> 0x35"
abbreviation DIGIT_9 :: jschar where "DIGIT_9 \<equiv> 0x39"

text \<open>The character classes \<^verbatim>\<open>[A-Z]\<close>, \<^verbatim>\<open>[0-9]\<close>, \<^verbatim>\<open>[A-Z0-9<]\<close> and \<^verbatim>\<open>[CELA]\<close>.\<close>

definition isUpperAZ :: "jschar \<Rightarrow> bool" where
  "isUpperAZ c = (LETTER_A \<le> c \<and> c \<le> LETTER_Z)"

definition isDigit :: "jschar \<Rightarrow> bool" where
  "isDigit c = (DIGIT_0 \<le> c \<and> c \<le> DIGIT_9)"

definition isMRZChar :: "jschar \<Rightarrow> bool" where
  "isMRZChar c = (isUpperAZ c \<or> isDigit c \<or> c = FILLER)"

definition isCELA :: "jschar \<Rightarrow> bool" where
  "isCELA c = (c = LETTER_C \<or> c = LETTER_E \<or> c = LETTER_L \<or> c = LETTER_A)"

text \<open>
  The class \<^verbatim>\<open>\s\<close>, which is also what \<^verbatim>\<open>trim\<close> and \<^verbatim>\<open>parseInt\<close> skip: the
  ECMAScript white space and line terminator code units. The line terminators alone
  are what \<^verbatim>\<open>.\<close> does not match.
\<close>

definition isLineTerminator :: "jschar \<Rightarrow> bool" where
  "isLineTerminator c = (c = 0x0A \<or> c = 0x0D \<or> c = 0x2028 \<or> c = 0x2029)"

definition isWhiteSpace :: "jschar \<Rightarrow> bool" where
  "isWhiteSpace c =
     (c = 0x09 \<or> c = 0x0B \<or> c = 0x0C \<or> c = 0x20 \<or> c = 0xA0 \<or> c = 0x1680
      \<or> (0x2000 \<le> c \<and> c \<le> 0x200A) \<or> c = 0x202F \<or> c = 0x205F \<or> c = 0x3000
      \<or> c = 0xFEFF \<or> isLineTerminator c)"

text \<open>\<^verbatim>\<open>s.substring(a, b)\<close> (the arguments are swapped when \<open>a > b\<close>) and \<^verbatim>\<open>s.substring(a)\<close>.\<close>

definition substring :: "nat \<Rightarrow> nat \<Rightarrow> jsstring \<Rightarrow> jsstring" where
  "substring a b s = take (max a b - min a b) (drop (min a b) s)"

definition substringFrom :: "nat \<Rightarrow> jsstring \<Rightarrow> jsstring" where
  "substringFrom a s = drop a s"

text \<open>\<^verbatim>\<open>s.replace(/c/g, r)\<close> for a one-character pattern \<open>c\<close> and a replacement string \<open>r\<close>.\<close>

definition replaceAllChar :: "jschar \<Rightarrow> jsstring \<Rightarrow> jsstring \<Rightarrow> jsstring" where
  "replaceAllChar c r s = concat (map (\<lambda>x. if x = c then r else [x]) s)"

definition trim :: "jsstring \<Rightarrow> jsstring" where
  "trim s = rev (dropWhile isWhiteSpace (rev (dropWhile isWhiteSpace s)))"

definition padEnd :: "nat \<Rightarrow> jschar \<Rightarrow> jsstring \<Rightarrow> jsstring" where
  "padEnd n c s = s @ replicate (n - length s) c"

definition startsWith :: "jsstring \<Rightarrow> jsstring \<Rightarrow> bool" where
  "startsWith p s = (take (length p) s = p)"

text \<open>\<^verbatim>\<open>s.includes('<<')\<close> and \<^verbatim>\<open>s.split('<<')\<close>: the occurrences are taken left to right
  and do not overlap.\<close>

fun includesSep :: "jsstring \<Rightarrow> bool" where
  "includesSep (a # b # rest) = ((a = FILLER \<and> b = FILLER) \<or> includesSep (b # rest))"
| "includesSep _ = False"

fun splitSepFrom :: "jsstring \<Rightarrow> jsstring \<Rightarrow> jsstring list" where
  "splitSepFrom acc (a # b # rest) =
     (if a = FILLER \<and> b = FILLER then rev acc # splitSepFrom [] rest
      else splitSepFrom (a # acc) (b # rest))"
| "splitSepFrom acc [a] = [rev (a # acc)]"
| "splitSepFrom acc [] = [rev acc]"

definition splitSep :: "jsstring \<Rightarrow> jsstring list" where
  "splitSep s = splitSepFrom [] s"

text \<open>
  \<^verbatim>\<open>parseInt(s, 10)\<close>: leading white space is skipped, one sign is accepted, then the
  longest run of decimal digits is read; \<open>None\<close> stands for \<^verbatim>\<open>NaN\<close>, the result when
  no digit is found there.
\<close>

definition digitVal :: "jschar \<Rightarrow> nat" where
  "digitVal c = c - 48"

definition parseInt10 :: "jsstring \<Rightarrow> int option" where
  "parseInt10 s =
     (let s1 = dropWhile isWhiteSpace s;
          neg = (take 1 s1 = [DASH]);
          s2 = (if take 1 s1 = [DASH] \<or> take 1 s1 = [PLUS] then drop 1 s1 else s1);
          ds = takeWhile isDigit s2
      in if ds = [] then None
         else Some ((if neg then - 1 else 1) * int (foldl (\<lambda>a d. 10 * a + digitVal d) 0 ds)))"

text \<open>The decimal rendering of an integer inside a template literal.\<close>

definition digitChar :: "nat \<Rightarrow> jschar" where
  "digitChar d = 48 + d"

function showNat :: "nat \<Rightarrow> jsstring" where
  "showNat n = (if n < 10 then [digitChar n] else showNat (n div 10) @ [digitChar (n mod 10)])"
  by pat_completeness auto
termination
  by (relation "measure (\<lambda>n. n)") auto

declare showNat.simps [simp del]

definition showInt :: "int \<Rightarrow> jsstring" where
  "showInt i = (if i < 0 then DASH # showNat (nat (- i)) else showNat (nat i))"

text \<open>The remainder operator \<^verbatim>\<open>%\<close> on integers takes the sign of the dividend.\<close>

definition jsRem :: "int \<Rightarrow> int \<Rightarrow> int" where
  "jsRem a b = (if a < 0 then - ((- a) mod \<bar>b\<bar>) else a mod \<bar>b\<bar>)"

section \<open>The corrector \<^verbatim>\<open>cleanMRZLine1\<close>\<close>

text \<open>\<^verbatim>\<open>/[A-Z]<<[A-Z]/.test(s)\<close>, \<^verbatim>\<open>/[A-Z]<<$/.test(s)\<close> and \<^verbatim>\<open>/^<</.test(s)\<close>.\<close>

fun testLetterSepLetter :: "jsstring \<Rightarrow> bool" where
  "testLetterSepLetter (a # b # c # d # rest) =
     ((isUpperAZ a \<and> b = FILLER \<and> c = FILLER \<and> isUpperAZ d)
      \<or> testLetterSepLetter (b # c # d # rest))"
| "testLetterSepLetter _ = False"

fun testLetterSepEnd :: "jsstring \<Rightarrow> bool" where
  "testLetterSepEnd [a, b, c] = (isUpperAZ a \<and> b = FILLER \<and> c = FILLER)"
| "testLetterSepEnd (a # rest) = testLetterSepEnd rest"
| "testLetterSepEnd [] = False"

definition testSepStart :: "jsstring \<Rightarrow> bool" where
  "testSepStart s = startsWith [FILLER, FILLER] s"

text \<open>
  \<^verbatim>\<open>s.replace(/[CELA]{3,}$/, match => '<'.repeat(match.length))\<close>: the match is looked
  for at each start position from the left; at a position it succeeds when everything
  from there to the end is in \<^verbatim>\<open>[CELA]\<close> and is at least 3 long.
\<close>

fun restoreTrailingFiller :: "jsstring \<Rightarrow> jsstring" where
  "restoreTrailingFiller [] = []"
| "restoreTrailingFiller (c # cs) =
     (if 3 \<le> length (c # cs) \<and> list_all isCELA (c # cs)
      then replicate (length (c # cs)) FILLER
      else c # restoreTrailingFiller cs)"

text \<open>\<^verbatim>\<open>s.replace(/([A-Z])CC([A-Z])/, '$1<<$2')\<close>: only the leftmost match is replaced.\<close>

fun restoreSeparator :: "jsstring \<Rightarrow> jsstring" where
  "restoreSeparator (a # b # c # d # rest) =
     (if isUpperAZ a \<and> b = LETTER_C \<and> c = LETTER_C \<and> isUpperAZ d
      then a # FILLER # FILLER # d # rest
      else a # restoreSeparator (b # c # d # rest))"
| "restoreSeparator s = s"

definition cleanMRZLine1 :: "jsstring \<Rightarrow> jsstring" where
  "cleanMRZLine1 line =
     (if length line < 44 then line
      else let nameSection = substringFrom 5 line in
        if testLetterSepLetter nameSection then line
        else if testLetterSepEnd nameSection \<or> testSepStart nameSection then line
        else let cleaned = restoreTrailingFiller nameSection;
                 cleaned = (if \<not> testLetterSepLetter cleaned then restoreSeparator cleaned
                            else cleaned)
             in substring 0 5 line @ cleaned)"

subsection \<open>The variant of \<^verbatim>\<open>src/App.tsx\<close>\<close>

text \<open>
  \<^verbatim>\<open>s.replace(/[C<]{2,}[CELA<]*$/, match => '<'.repeat(match.length))\<close>: a match starts
  where two characters of \<^verbatim>\<open>[C<]\<close> are followed, up to the end, by characters of
  \<^verbatim>\<open>[CELA<]\<close> only.
\<close>

definition isCOrFiller :: "jschar \<Rightarrow> bool" where
  "isCOrFiller c = (c = LETTER_C \<or> c = FILLER)"

definition isCELAOrFiller :: "jschar \<Rightarrow> bool" where
  "isCELAOrFiller c = (isCELA c \<or> c = FILLER)"

fun restoreTrailingFiller_App :: "jsstring \<Rightarrow> jsstring" where
  "restoreTrailingFiller_App (a # b # rest) =
     (if isCOrFiller a \<and> isCOrFiller b \<and> list_all isCELAOrFiller rest
      then replicate (length (a # b # rest)) FILLER
      else a # restoreTrailingFiller_App (b # rest))"
| "restoreTrailingFiller_App s = s"

text \<open>
  \<^verbatim>\<open>s.replace(/^(.+)CC([A-Z]+<+)$/, '$1<<$2')\<close>: the greedy \<^verbatim>\<open>.+\<close> takes the longest
  non-empty prefix free of line terminators that is followed by \<^verbatim>\<open>CC\<close>, one or more
  letters and one or more fillers up to the end.
\<close>

definition lettersThenFillers :: "jsstring \<Rightarrow> bool" where
  "lettersThenFillers t =
     (let ls = takeWhile isUpperAZ t; fs = dropWhile isUpperAZ t
      in ls \<noteq> [] \<and> fs \<noteq> [] \<and> list_all (\<lambda>c. c = FILLER) fs)"

definition sepMatchAt :: "jsstring \<Rightarrow> nat \<Rightarrow> bool" where
  "sepMatchAt s i =
     (1 \<le> i \<and> \<not> list_ex isLineTerminator (take i s)
      \<and> take 2 (drop i s) = [LETTER_C, LETTER_C] \<and> lettersThenFillers (drop (i + 2) s))"

definition restoreSeparator_App :: "jsstring \<Rightarrow> jsstring" where
  "restoreSeparator_App s =
     (case filter (sepMatchAt s) (rev [0..<length s]) of
        [] \<Rightarrow> s
      | i # _ \<Rightarrow> take i s @ [FILLER, FILLER] @ drop (i + 2) s)"

definition cleanMRZLine1_App :: "jsstring \<Rightarrow> jsstring" where
  "cleanMRZLine1_App line =
     (if length line < 44 then line
      else let nameSection = substringFrom 5 line in
        if includesSep nameSection then line
        else let cleaned = restoreTrailingFiller_App nameSection;
                 cleaned = (if \<not> includesSep cleaned then restoreSeparator_App cleaned
                            else cleaned)
             in substring 0 5 line @ cleaned)"

section \<open>The decoder \<^verbatim>\<open>parseMRZ\<close>\<close>

record PassportData =
  passportNumber :: jsstring
  fullName :: jsstring
  surname :: jsstring
  givenNames :: jsstring
  nationality :: jsstring
  dateOfBirth :: jsstring
  sex :: jsstring
  dateOfExpiry :: jsstring
  mrzLine1 :: jsstring
  mrzLine2 :: jsstring

text \<open>
  \<^verbatim>\<open>formatMRZDate\<close> reads the clock (\<^verbatim>\<open>new Date().getFullYear()\<close>); the year it reads is
  the argument \<open>yr\<close>.
\<close>

definition formatMRZDate :: "int \<Rightarrow> jsstring \<Rightarrow> jsstring" where
  "formatMRZDate yr yymmdd =
     (if yymmdd = [] \<or> length yymmdd \<noteq> 6 \<or> FILLER \<in> set yymmdd then []
      else let clean = replaceAllChar LETTER_Z [DIGIT_2]
                         (replaceAllChar LETTER_S [DIGIT_5]
                           (replaceAllChar LETTER_I [DIGIT_1]
                             (replaceAllChar LETTER_O [DIGIT_0] yymmdd)));
               month = substring 2 4 clean;
               day = substring 4 6 clean
           in case parseInt10 (substring 0 2 clean) of
                None \<Rightarrow> clean
              | Some year \<Rightarrow>
                  let currentYear = jsRem yr 100;
                      fullYear = (if year > currentYear + 10 then 1900 + year else 2000 + year)
                  in showInt fullYear @ [DASH] @ month @ [DASH] @ day)"

text \<open>\<^verbatim>\<open>[givenNames, surname].filter(Boolean).join(' ')\<close>.\<close>

definition joinNonEmpty :: "jsstring list \<Rightarrow> jsstring" where
  "joinNonEmpty parts =
     (case filter (\<lambda>p. p \<noteq> []) parts of
        [] \<Rightarrow> []
      | p # ps \<Rightarrow> p @ concat (map (\<lambda>q. SPACE # q) ps))"

text \<open>
  The decoder, over the corrector it calls: the two source files differ in the
  corrector only (and in the \<open>fullName\<close> field, which \<^verbatim>\<open>src/App.tsx\<close> does not have).
\<close>

definition parseMRZ_with :: "(jsstring \<Rightarrow> jsstring) \<Rightarrow> int \<Rightarrow> jsstring \<times> jsstring \<Rightarrow> PassportData" where
  "parseMRZ_with clean yr lines =
     (let line1Raw = fst lines; line2 = snd lines;
          line1 = clean line1Raw;
          issuingCountry = replaceAllChar FILLER [] (substring 2 5 line1);
          nameString = splitSep (substringFrom 5 line1);
          surname = trim (replaceAllChar FILLER [SPACE] (hd nameString));
          givenNames = trim (replaceAllChar FILLER [SPACE]
                               (case tl nameString of [] \<Rightarrow> [] | g # _ \<Rightarrow> g));
          passportNumber = replaceAllChar FILLER [] (substring 0 9 line2);
          nationality = replaceAllChar FILLER [] (substring 10 13 line2);
          dobRaw = substring 13 19 line2;
          sexRaw = substring 20 21 line2;
          expiryRaw = substring 21 27 line2;
          fullName = joinNonEmpty [givenNames, surname]
      in \<lparr> passportNumber = passportNumber,
           fullName = fullName,
           surname = surname,
           givenNames = givenNames,
           nationality = (if nationality \<noteq> [] then nationality else issuingCountry),
           dateOfBirth = formatMRZDate yr dobRaw,
           sex = (if sexRaw = [LETTER_M] then ustr ''Male''
                  else if sexRaw = [LETTER_F] then ustr ''Female''
                  else ustr ''Unspecified''),
           dateOfExpiry = formatMRZDate yr expiryRaw,
           mrzLine1 = line1,
           mrzLine2 = line2 \<rparr>)"

definition parseMRZ :: "int \<Rightarrow> jsstring \<times> jsstring \<Rightarrow> PassportData" where
  "parseMRZ = parseMRZ_with cleanMRZLine1"

definition parseMRZ_App :: "int \<Rightarrow> jsstring \<times> jsstring \<Rightarrow> PassportData" where
  "parseMRZ_App = parseMRZ_with cleanMRZLine1_App"

text \<open>The lines of the ICAO 9303 specimen passport.\<close>

definition icao_line1 :: jsstring where
  "icao_line1 = ustr ''P<UTOERIKSSON<<ANNA<MARIA<<<<<<<<<<<<<<<<<<<''"

definition icao_line2 :: jsstring where
  "icao_line2 = ustr ''L898902C36UTO7408122F1204159ZE184226B<<<<<10''"

text \<open>
  The digit-confusion table in the words of the specification: \<^verbatim>\<open>O\<close> to \<^verbatim>\<open>0\<close>,
  \<^verbatim>\<open>I\<close> to \<^verbatim>\<open>1\<close>, \<^verbatim>\<open>S\<close> to \<^verbatim>\<open>5\<close>, \<^verbatim>\<open>Z\<close> to \<^verbatim>\<open>2\<close>, applied to one character.
\<close>

definition ocrDigitTable :: "jschar \<Rightarrow> jschar" where
  "ocrDigitTable c =
     (if c = LETTER_O then DIGIT_0 else if c = LETTER_I then DIGIT_1
      else if c = LETTER_S then DIGIT_5 else if c = LETTER_Z then DIGIT_2 else c)"

text \<open>
  The year that \<^verbatim>\<open>parseInt\<close> reads from two characters, case by case: two digits; one
  digit and then something else; a white space or \<^verbatim>\<open>+\<close> and then a digit; \<^verbatim>\<open>-\<close> and then a
  digit; and none (\<^verbatim>\<open>NaN\<close>) otherwise.
\<close>

definition yearOfTwo :: "jschar \<Rightarrow> jschar \<Rightarrow> int option" where
  "yearOfTwo a b =
     (if isDigit a \<and> isDigit b then Some (int (10 * digitVal a + digitVal b))
      else if isDigit a then Some (int (digitVal a))
      else if (isWhiteSpace a \<or> a = PLUS) \<and> isDigit b then Some (int (digitVal b))
      else if a = DASH \<and> isDigit b then Some (- int (digitVal b))
      else None)"

text \<open>
  The date in the words of the specification: the year is of the last century when it
  exceeds the current two-digit year plus ten, and of this one otherwise; the result is
  the year, \<^verbatim>\<open>-\<close>, the cleaned characters 3 and 4, \<^verbatim>\<open>-\<close>, the cleaned characters 5 and 6.
\<close>

definition isoDate :: "int \<Rightarrow> int \<Rightarrow> jsstring \<Rightarrow> jsstring" where
  "isoDate yr year clean =
     showInt (if year > jsRem yr 100 + 10 then 1900 + year else 2000 + year)
       @ [DASH] @ [clean ! 2, clean ! 3] @ [DASH] @ [clean ! 4, clean ! 5]"

section \<open>The locator \<^verbatim>\<open>extractMRZ\<close>\<close>

text \<open>\<^verbatim>\<open>text.split('\n')\<close>: always at least one line.\<close>

fun splitNewlineFrom :: "jsstring \<Rightarrow> jsstring \<Rightarrow> jsstring list" where
  "splitNewlineFrom acc [] = [rev acc]"
| "splitNewlineFrom acc (c # cs) =
     (if c = NEWLINE then rev acc # splitNewlineFrom [] cs else splitNewlineFrom (c # acc) cs)"

definition splitNewline :: "jsstring \<Rightarrow> jsstring list" where
  "splitNewline s = splitNewlineFrom [] s"

text \<open>
  The normalisation of one line. \<^verbatim>\<open>toUpperCase\<close> is the host's Unicode upper-casing;
  it is an argument of the model, and nothing below depends on what it does.
  \<open>asciiToUpperCase\<close> is what it does on a string of ASCII code units.
\<close>

definition asciiToUpperCase :: "jsstring \<Rightarrow> jsstring" where
  "asciiToUpperCase s = map (\<lambda>c. if 0x61 \<le> c \<and> c \<le> 0x7A then c - 0x20 else c) s"

abbreviation GUILLEMET :: jschar where "GUILLEMET \<equiv> 0xAB"
abbreviation LBRACKET :: jschar where "LBRACKET \<equiv> 0x5B"
abbreviation RBRACKET :: jschar where "RBRACKET \<equiv> 0x5D"
abbreviation LPAREN :: jschar where "LPAREN \<equiv> 0x28"
abbreviation RPAREN :: jschar where "RPAREN \<equiv> 0x29"

definition replaceBrackets :: "jsstring \<Rightarrow> jsstring" where
  "replaceBrackets s =
     replaceAllChar RPAREN [FILLER]
       (replaceAllChar LPAREN [FILLER]
         (replaceAllChar RBRACKET [FILLER]
           (replaceAllChar LBRACKET [FILLER] s)))"

definition normalizeLine :: "(jsstring \<Rightarrow> jsstring) \<Rightarrow> jsstring \<Rightarrow> jsstring" where
  "normalizeLine toUpperCase l =
     replaceBrackets
       (replaceAllChar GUILLEMET [FILLER, FILLER]
         (filter (\<lambda>c. \<not> isWhiteSpace c) (toUpperCase l)))"

text \<open>
  In \<^verbatim>\<open>src/App.tsx\<close> the pattern of the second replacement is the two code units
  U+00C2 U+00AB.
\<close>

fun replaceGuillemet_App :: "jsstring \<Rightarrow> jsstring" where
  "replaceGuillemet_App (a # b # rest) =
     (if a = 0xC2 \<and> b = GUILLEMET then FILLER # FILLER # replaceGuillemet_App rest
      else a # replaceGuillemet_App (b # rest))"
| "replaceGuillemet_App s = s"

definition normalizeLine_App :: "(jsstring \<Rightarrow> jsstring) \<Rightarrow> jsstring \<Rightarrow> jsstring" where
  "normalizeLine_App toUpperCase l =
     replaceBrackets
       (replaceGuillemet_App
         (filter (\<lambda>c. \<not> isWhiteSpace c) (toUpperCase l)))"

text \<open>\<^verbatim>\<open>l.padEnd(44, '<').substring(0, 44)\<close> and \<^verbatim>\<open>(l.match(/[0-9]/g) || []).length\<close>.\<close>

definition pad44 :: "jsstring \<Rightarrow> jsstring" where
  "pad44 l = substring 0 44 (padEnd 44 FILLER l)"

definition countDigits :: "jsstring \<Rightarrow> nat" where
  "countDigits l = length (filter isDigit l)"

text \<open>The test of the line-pair scan on the lines at \<open>i\<close> and \<open>i + 1\<close>.\<close>

definition qualifies :: "jsstring \<Rightarrow> jsstring \<Rightarrow> bool" where
  "qualifies l1 l2 =
     (startsWith [LETTER_P] l1 \<and> 40 \<le> length l1 \<and> 40 \<le> length l2
      \<and> 5 < countDigits (pad44 l2))"

text \<open>The loop \<^verbatim>\<open>for (let i = 0; i < lines.length - 1; i++)\<close>.\<close>

fun scanPairs :: "jsstring list \<Rightarrow> (jsstring \<times> jsstring) option" where
  "scanPairs (l1 # l2 # rest) =
     (if startsWith [LETTER_P] l1 \<and> 40 \<le> length l1 \<and> 40 \<le> length l2
      then (if 5 < countDigits (pad44 l2) then Some (pad44 l1, pad44 l2)
            else scanPairs (l2 # rest))
      else scanPairs (l2 # rest))"
| "scanPairs ls = None"

text \<open>
  \<^verbatim>\<open>continuous.match(/(P[A-Z<][A-Z0-9<]{42})([A-Z0-9<]{44})/)\<close>: every match is 88 long,
  and the first start position with a match is taken.
\<close>

definition matchesPairHere :: "jsstring \<Rightarrow> bool" where
  "matchesPairHere s =
     (88 \<le> length s \<and> s ! 0 = LETTER_P \<and> (isUpperAZ (s ! 1) \<or> s ! 1 = FILLER)
      \<and> list_all isMRZChar (take 42 (drop 2 s))
      \<and> list_all isMRZChar (take 44 (drop 44 s)))"

fun matchContinuous :: "jsstring \<Rightarrow> (jsstring \<times> jsstring) option" where
  "matchContinuous [] = None"
| "matchContinuous (c # cs) =
     (if matchesPairHere (c # cs) then Some (take 44 (c # cs), take 44 (drop 44 (c # cs)))
      else matchContinuous cs)"

definition locateInLines :: "jsstring list \<Rightarrow> (jsstring \<times> jsstring) option" where
  "locateInLines lines =
     (case scanPairs lines of
        Some pair \<Rightarrow> Some pair
      | None \<Rightarrow> matchContinuous (concat lines))"

definition normalizedLines :: "(jsstring \<Rightarrow> jsstring) \<Rightarrow> jsstring \<Rightarrow> jsstring list" where
  "normalizedLines toUpperCase text = map (normalizeLine toUpperCase) (splitNewline text)"

definition normalizedLines_App :: "(jsstring \<Rightarrow> jsstring) \<Rightarrow> jsstring \<Rightarrow> jsstring list" where
  "normalizedLines_App toUpperCase text = map (normalizeLine_App toUpperCase) (splitNewline text)"

definition extractMRZ :: "(jsstring \<Rightarrow> jsstring) \<Rightarrow> jsstring \<Rightarrow> (jsstring \<times> jsstring) option" where
  "extractMRZ toUpperCase text = locateInLines (normalizedLines toUpperCase text)"

definition extractMRZ_App :: "(jsstring \<Rightarrow> jsstring) \<Rightarrow> jsstring \<Rightarrow> (jsstring \<times> jsstring) option" where
  "extractMRZ_App toUpperCase text = locateInLines (normalizedLines_App toUpperCase text)"

section \<open>The orchestrator \<^verbatim>\<open>extractData\<close>\<close>

text \<open>
  An image is the string that names it (a data URL). A rejected promise or a thrown
  error is a value carrying its message. What the browser and the OCR engine do is the
  environment of a run: the upper-casing of strings, the year of the clock, the outcome
  of \<^verbatim>\<open>preprocessImageForMRZ\<close> (it rejects when the image cannot be loaded) and the
  outcome of \<^verbatim>\<open>worker.recognize\<close>.
\<close>

type_synonym image = jsstring

datatype exn = JsError jsstring

record env =
  hostToUpperCase :: "jsstring \<Rightarrow> jsstring"
  clockYear :: int
  preprocessImageForMRZ :: "image \<Rightarrow> bool \<Rightarrow> exn + image"
  recognize :: "image \<Rightarrow> exn + jsstring"

text \<open>
  The state a run leaves behind: how many workers were created, the images handed to
  \<^verbatim>\<open>worker.recognize\<close> in order, and how often \<^verbatim>\<open>worker.terminate\<close> was called.
\<close>

record world =
  workers :: nat
  recognized :: "image list"
  terminated :: nat

text \<open>What the page shows in the end: \<^verbatim>\<open>setPassportData\<close> or \<^verbatim>\<open>setError\<close>.\<close>

datatype outcome = ShowsData PassportData | ShowsError jsstring

definition notFoundMessage :: jsstring where
  "notFoundMessage = ustr (''Could not detect a valid Machine Readable Zone (MRZ). '' @
     ''Please ensure the image is clear and the bottom two lines of the passport are visible.'')"

definition genericMessage :: jsstring where
  "genericMessage = ustr ''An error occurred while processing the passport.''"

text \<open>\<^verbatim>\<open>err.message || 'An error occurred while processing the passport.'\<close>\<close>

fun errorText :: "exn \<Rightarrow> jsstring" where
  "errorText (JsError message) = (if message \<noteq> [] then message else genericMessage)"

text \<open>\<^verbatim>\<open>const result = await worker.recognize(image); mrzLines = extractMRZ(result.data.text)\<close>\<close>

definition recognizeAndLocate ::
  "env \<Rightarrow> image \<Rightarrow> world \<Rightarrow> (exn + (jsstring \<times> jsstring) option) \<times> world" where
  "recognizeAndLocate e img w =
     (let w' = w\<lparr>recognized := recognized w @ [img]\<rparr> in
      case recognize e img of
        Inl x \<Rightarrow> (Inl x, w')
      | Inr text \<Rightarrow> (Inr (extractMRZ (hostToUpperCase e) text), w'))"

text \<open>
  Passes 1 and 2: preprocessing and OCR inside \<^verbatim>\<open>try { ... } catch { }\<close>, so that
  \<^verbatim>\<open>mrzLines\<close> stays \<^verbatim>\<open>null\<close> when either throws.
\<close>

definition enhancedPass ::
  "env \<Rightarrow> image \<Rightarrow> bool \<Rightarrow> world \<Rightarrow> (jsstring \<times> jsstring) option \<times> world" where
  "enhancedPass e img cropBottom w =
     (case preprocessImageForMRZ e img cropBottom of
        Inl x \<Rightarrow> (None, w)
      | Inr enhanced \<Rightarrow>
          (case recognizeAndLocate e enhanced w of
             (Inl x, w') \<Rightarrow> (None, w')
           | (Inr mrzLines, w') \<Rightarrow> (mrzLines, w')))"

text \<open>Whether a pass of that kind throws: in preprocessing, or else in the OCR call.\<close>

definition passThrows :: "env \<Rightarrow> image \<Rightarrow> bool \<Rightarrow> bool" where
  "passThrows e img cropBottom =
     (case preprocessImageForMRZ e img cropBottom of
        Inl x \<Rightarrow> True
      | Inr enhanced \<Rightarrow> (case recognize e enhanced of Inl x \<Rightarrow> True | Inr text \<Rightarrow> False))"

text \<open>
  The body of the page loop after pass 1, and the whole body: pass 2 and pass 3 run
  only while \<^verbatim>\<open>mrzLines\<close> is \<^verbatim>\<open>null\<close>, and pass 3 is not inside a \<^verbatim>\<open>try\<close>.
\<close>

definition fromPass2 ::
  "env \<Rightarrow> image \<Rightarrow> world \<Rightarrow> (exn + (jsstring \<times> jsstring) option) \<times> world" where
  "fromPass2 e img w1 =
     (let (mrzLines, w2) = enhancedPass e img True w1 in
      if mrzLines = None then recognizeAndLocate e img w2 else (Inr mrzLines, w2))"

definition scanPage ::
  "env \<Rightarrow> image \<Rightarrow> world \<Rightarrow> (exn + (jsstring \<times> jsstring) option) \<times> world" where
  "scanPage e img w0 =
     (let (mrzLines, w1) = enhancedPass e img False w0 in
      if mrzLines = None then fromPass2 e img w1 else (Inr mrzLines, w1))"

text \<open>The loop over the pages: it stops at the first page with a result, and a throw leaves it.\<close>

fun scanPages :: "env \<Rightarrow> image list \<Rightarrow> world \<Rightarrow> (exn + PassportData option) \<times> world" where
  "scanPages e [] w = (Inr None, w)"
| "scanPages e (img # rest) w =
     (case scanPage e img w of
        (Inl x, w') \<Rightarrow> (Inl x, w')
      | (Inr (Some mrzLines), w') \<Rightarrow> (Inr (Some (parseMRZ (clockYear e) mrzLines)), w')
      | (Inr None, w') \<Rightarrow> scanPages e rest w')"

text \<open>
  A run, from the point where the page images are known and the worker has been created
  and configured. \<^verbatim>\<open>worker.terminate()\<close> follows the loop inside the \<^verbatim>\<open>try\<close> block and
  is taken to succeed when it is reached; the \<^verbatim>\<open>catch\<close> block shows the error.
\<close>

definition extractData :: "env \<Rightarrow> image list \<Rightarrow> outcome \<times> world" where
  "extractData e imageSrcs =
     (let w0 = \<lparr>workers = 1, recognized = [], terminated = 0\<rparr> in
      case scanPages e imageSrcs w0 of
        (Inl x, w) \<Rightarrow> (ShowsError (errorText x), w)
      | (Inr foundData, w) \<Rightarrow>
          (let w' = w\<lparr>terminated := terminated w + 1\<rparr> in
           case foundData of
             Some d \<Rightarrow> (ShowsData d, w')
           | None \<Rightarrow> (ShowsError notFoundMessage, w')))"

section \<open>Otsu's threshold\<close>

text \<open>
  \<^verbatim>\<open>otsuThreshold\<close> computes with JavaScript numbers, which are IEEE 754 doubles. The
  counts and the intensity sums are integers that stay far below \<open>2\<^sup>5\<^sup>3\<close> (an array has
  fewer than \<open>2\<^sup>3\<^sup>2\<close> elements), and doubles hold and add such integers exactly: they
  are integers in the model. The division, the subtraction, the multiplication and the
  squaring \<^verbatim>\<open>** 2\<close> that compute the means and the variance round their results; they
  are operations of the host and, like \<^verbatim>\<open>toUpperCase\<close>, an argument of the model. The
  values they return are real numbers (nothing overflows here, and no division by zero
  is reached).
\<close>

record numberOps =
  numDiv :: "real \<Rightarrow> real \<Rightarrow> real"
  numSub :: "real \<Rightarrow> real \<Rightarrow> real"
  numMul :: "real \<Rightarrow> real \<Rightarrow> real"
  numSquare :: "real \<Rightarrow> real"

text \<open>
  Arithmetic without rounding. It is what the host's operations do wherever the operands
  and the results are integers that a double holds.
\<close>

definition exactArith :: numberOps where
  "exactArith =
     \<lparr> numDiv = (\<lambda>x y. x / y), numSub = (\<lambda>x y. x - y), numMul = (\<lambda>x y. x * y),
       numSquare = (\<lambda>x. x\<^sup>2) \<rparr>"

text \<open>
  What the results below on two grey values use of the host's operations: the quotient
  of \<open>q * n\<close> by \<open>n\<close> is \<open>q\<close> and the difference of two grey values is exact (correct
  rounding returns a result that a double holds), and products and squares of numbers
  of magnitude at least 1 are at least 1 (rounding is monotone and keeps 1).
\<close>

definition exactOnGreyValues :: "numberOps \<Rightarrow> bool" where
  "exactOnGreyValues ops =
     ((\<forall>q n :: nat. q < 256 \<and> 0 < n \<longrightarrow> numDiv ops (real (q * n)) (real n) = real q)
      \<and> (\<forall>p q :: nat. p < 256 \<and> q < 256 \<longrightarrow> numSub ops (real p) (real q) = real p - real q)
      \<and> (\<forall>x y :: real. 1 \<le> x \<and> 1 \<le> y \<longrightarrow> 1 \<le> numMul ops x y)
      \<and> (\<forall>x :: real. 1 \<le> \<bar>x\<bar> \<longrightarrow> 1 \<le> numSquare ops x))"

text \<open>The grey values are natural numbers; only the values below 256 reach the 256 bins
  that the loops read.\<close>

definition histogramOf :: "nat list \<Rightarrow> nat list" where
  "histogramOf values =
     foldl (\<lambda>histogram v. if v < 256 then histogram[v := histogram ! v + 1] else histogram)
       (replicate 256 0) values"

definition sumAllOf :: "nat list \<Rightarrow> int" where
  "sumAllOf histogram = (\<Sum>i \<leftarrow> [0..<256]. int i * int (histogram ! i))"

text \<open>
  The loop over \<open>t\<close>, with \<^verbatim>\<open>continue\<close> while the background is empty and \<^verbatim>\<open>break\<close>
  once the foreground is.
\<close>

fun otsuScan ::
  "numberOps \<Rightarrow> nat list \<Rightarrow> int \<Rightarrow> int \<Rightarrow> nat list \<Rightarrow> int \<Rightarrow> int \<Rightarrow> real \<Rightarrow> nat \<Rightarrow> nat" where
  "otsuScan ops histogram totalCount sumAll [] sumBg weightBg maxVariance best = best"
| "otsuScan ops histogram totalCount sumAll (t # ts) sumBg weightBg maxVariance best =
     (let weightBg = weightBg + int (histogram ! t) in
      if weightBg = 0 then otsuScan ops histogram totalCount sumAll ts sumBg weightBg maxVariance best
      else let weightFg = totalCount - weightBg in
        if weightFg = 0 then best
        else let sumBg = sumBg + int t * int (histogram ! t);
                 meanBg = numDiv ops (real_of_int sumBg) (real_of_int weightBg);
                 meanFg = numDiv ops (real_of_int (sumAll - sumBg)) (real_of_int weightFg);
                 variance = numMul ops (numMul ops (real_of_int weightBg) (real_of_int weightFg))
                              (numSquare ops (numSub ops meanBg meanFg))
             in if variance > maxVariance
                then otsuScan ops histogram totalCount sumAll ts sumBg weightBg variance t
                else otsuScan ops histogram totalCount sumAll ts sumBg weightBg maxVariance best)"

definition otsuThreshold :: "numberOps \<Rightarrow> nat list \<Rightarrow> nat" where
  "otsuThreshold ops values =
     (let histogram = histogramOf values;
          totalCount = int (length values);
          sumAll = sumAllOf histogram
      in otsuScan ops histogram totalCount sumAll [0..<256] 0 0 0 128)"

text \<open>
  The quantities of the method in closed form: the weight and the intensity sum of the
  pixels of value at most \<open>t\<close>, the between-class variance of the split at \<open>t\<close> as the
  host's operations compute it, and the splits that leave both classes non-empty.
\<close>

definition weightUpTo :: "nat list \<Rightarrow> nat \<Rightarrow> int" where
  "weightUpTo histogram t = (\<Sum>i \<leftarrow> [0..<Suc t]. int (histogram ! i))"

definition sumUpTo :: "nat list \<Rightarrow> nat \<Rightarrow> int" where
  "sumUpTo histogram t = (\<Sum>i \<leftarrow> [0..<Suc t]. int i * int (histogram ! i))"

definition betweenVariance :: "numberOps \<Rightarrow> nat list \<Rightarrow> int \<Rightarrow> int \<Rightarrow> nat \<Rightarrow> real" where
  "betweenVariance ops histogram totalCount sumAll t =
     (let weightBg = weightUpTo histogram t;
          weightFg = totalCount - weightBg;
          sumBg = sumUpTo histogram t;
          meanBg = numDiv ops (real_of_int sumBg) (real_of_int weightBg);
          meanFg = numDiv ops (real_of_int (sumAll - sumBg)) (real_of_int weightFg)
      in numMul ops (numMul ops (real_of_int weightBg) (real_of_int weightFg))
           (numSquare ops (numSub ops meanBg meanFg)))"

definition splits :: "nat list \<Rightarrow> int \<Rightarrow> nat \<Rightarrow> bool" where
  "splits histogram totalCount t =
     (weightUpTo histogram t \<noteq> 0 \<and> totalCount - weightUpTo histogram t \<noteq> 0)"

text \<open>The sums that the accumulators hold when the loop reaches \<open>k\<close>.\<close>

definition weightBelow :: "nat list \<Rightarrow> nat \<Rightarrow> int" where
  "weightBelow histogram k = (\<Sum>i \<leftarrow> [0..<k]. int (histogram ! i))"

definition sumBelow :: "nat list \<Rightarrow> nat \<Rightarrow> int" where
  "sumBelow histogram k = (\<Sum>i \<leftarrow> [0..<k]. int i * int (histogram ! i))"

text \<open>
  What the loop over the thresholds \<open>k\<close> to \<open>n - 1\<close> is to return when it starts with the
  running maximum \<open>maxVariance\<close> and the running best \<open>best\<close>: the running best if no
  split in the range has a larger computed variance, and else the lowest split among
  those of the largest computed variance.
\<close>

definition lowestBest ::
  "numberOps \<Rightarrow> nat list \<Rightarrow> int \<Rightarrow> int \<Rightarrow> nat \<Rightarrow> nat \<Rightarrow> real \<Rightarrow> nat \<Rightarrow> nat \<Rightarrow> bool" where
  "lowestBest ops histogram totalCount sumAll k n maxVariance best r =
     ((r = best
        \<and> (\<forall>t. k \<le> t \<and> t < n \<and> splits histogram totalCount t \<longrightarrow>
              betweenVariance ops histogram totalCount sumAll t \<le> maxVariance))
      \<or> (k \<le> r \<and> r < n \<and> splits histogram totalCount r
          \<and> maxVariance < betweenVariance ops histogram totalCount sumAll r
          \<and> (\<forall>t. k \<le> t \<and> t < n \<and> splits histogram totalCount t \<longrightarrow>
                betweenVariance ops histogram totalCount sumAll t
                  \<le> betweenVariance ops histogram totalCount sumAll r)
          \<and> (\<forall>t. k \<le> t \<and> t < r \<and> splits histogram totalCount t \<longrightarrow>
                betweenVariance ops histogram totalCount sumAll t
                  < betweenVariance ops histogram totalCount sumAll r)))"

text \<open>The mean of a cluster of grey values.\<close>

definition meanOf :: "nat list \<Rightarrow> real" where
  "meanOf values = real (sum_list values) / real (length values)"

section \<open>Sample inputs\<close>

text \<open>
  Transcripts for the locator: a page with two candidate line pairs under a heading (the
  first pair in lower case, short of 44 characters and with a blank inside), the lines
  these normalise to, a machine-readable zone broken at the wrong place, and the text
  of a page that has no machine-readable zone.
\<close>

definition two_pair_transcript :: jsstring where
  "two_pair_transcript = ustr
     (''Passport'' @ [CHR 0x0A] @
      ''p<utoeriksson<<anna<maria<<<<<<<<<<<<<<<'' @ [CHR 0x0A] @
      ''L898902C36UTO7408122F1204159ZE184226B <<<<<10'' @ [CHR 0x0A] @
      ''P<UTOSMITH<<JOHN<<<<<<<<<<<<<<<<<<<<<<<<<<<<'' @ [CHR 0x0A] @
      ''X123456784UTO8001014M2501017<<<<<<<<<<<<<<06'')"

definition two_pair_lines :: "jsstring list" where
  "two_pair_lines =
     [ustr ''PASSPORT'',
      ustr ''P<UTOERIKSSON<<ANNA<MARIA<<<<<<<<<<<<<<<'',
      ustr ''L898902C36UTO7408122F1204159ZE184226B<<<<<10'',
      ustr ''P<UTOSMITH<<JOHN<<<<<<<<<<<<<<<<<<<<<<<<<<<<'',
      ustr ''X123456784UTO8001014M2501017<<<<<<<<<<<<<<06'']"

definition split_pair_transcript :: jsstring where
  "split_pair_transcript = ustr
     (''P<UTOERIKSSON<<ANNA<MARIA<<<<<<<<<<<<<<<<<<<L898902C36'' @ [CHR 0x0A] @
      ''UTO7408122F1204159ZE184226B<<<<<10'')"

definition cover_page_transcript :: jsstring where
  "cover_page_transcript = ustr
     (''Passport No. / No. du passeport / No. de pasaporte'' @ [CHR 0x0A] @
      ''Date of issue: 12.03.2015   Date of expiry: 11.03.2025'')"

text \<open>
  Two pages of a document and an environment: neither page can be loaded for
  preprocessing, the OCR call on the first page fails, and the second page reads as the
  transcript with the ICAO specimen.
\<close>

definition page1 :: image where
  "page1 = ustr ''data:image/jpeg;base64,AAAA''"

definition page2 :: image where
  "page2 = ustr ''data:image/jpeg;base64,BBBB''"

definition corrupt_env :: env where
  "corrupt_env =
     \<lparr> hostToUpperCase = asciiToUpperCase, clockYear = 2026,
       preprocessImageForMRZ =
         (\<lambda>img cropBottom. Inl (JsError (ustr ''Failed to load image for preprocessing''))),
       recognize =
         (\<lambda>img. if img = page1 then Inl (JsError (ustr ''Error attempting to read image.''))
                else Inr two_pair_transcript) \<rparr>"

text \<open>
  A second environment: the enhanced full image cannot be produced, the OCR call on the
  cropped image fails, and the original image reads as the transcript with the specimen.
\<close>

definition cropped1 :: image where
  "cropped1 = ustr ''data:image/png;base64,CCCC''"

definition retry_env :: env where
  "retry_env =
     \<lparr> hostToUpperCase = asciiToUpperCase, clockYear = 2026,
       preprocessImageForMRZ =
         (\<lambda>img cropBottom. if cropBottom then Inr cropped1
            else Inl (JsError (ustr ''Failed to load image for preprocessing''))),
       recognize =
         (\<lambda>img. if img = cropped1 then Inl (JsError (ustr ''Error attempting to read image.''))
                else Inr two_pair_transcript) \<rparr>"

text \<open>A line 1 whose holder has a single name.\<close>

definition mccarthy_line1 :: jsstring where
  "mccarthy_line1 = ustr ''P<USAMCCARTHY<<<<<<<<<<<<<<<<<<<<<<<<<<<<<<<''"

section \<open>Verification\<close>

subsection \<open>The decoder leaves line 2 alone\<close>

text \<open>
  Claim C10. For every pair of input lines the decoder returns, as \<open>mrzLine2\<close>, its second
  input line character for character, and as \<open>mrzLine1\<close> the corrector's result on the
  first input line; this holds for the decoder of both source files.
\<close>

theorem parseMRZ_frame:
  "mrzLine2 (parseMRZ yr (line1, line2)) = line2
   \<and> mrzLine1 (parseMRZ yr (line1, line2)) = cleanMRZLine1 line1
   \<and> mrzLine2 (parseMRZ_App yr (line1, line2)) = line2
   \<and> mrzLine1 (parseMRZ_App yr (line1, line2)) = cleanMRZLine1_App line1"
  by (simp add: parseMRZ_def parseMRZ_App_def parseMRZ_with_def Let_def)

subsection \<open>The ICAO specimen\<close>

lemmas js_string_defs = ustr_def cu_def substring_def substringFrom_def replaceAllChar_def
  trim_def padEnd_def startsWith_def splitSep_def isUpperAZ_def isDigit_def isMRZChar_def
  isCELA_def isWhiteSpace_def isLineTerminator_def

text \<open>\<^verbatim>\<open>split\<close> returns at least one piece, so that \<^verbatim>\<open>nameString[0]\<close> is a string.\<close>

lemma splitSepFrom_nonempty: "splitSepFrom acc s \<noteq> []"
  by (induction acc s rule: splitSepFrom.induct) simp_all

lemma splitSep_nonempty: "splitSep s \<noteq> []"
  by (simp add: splitSep_def splitSepFrom_nonempty)

lemma showNat_1974: "showNat 1974 = ustr ''1974''"
  by (simp add: showNat.simps digitChar_def js_string_defs)

lemma showNat_2074: "showNat 2074 = ustr ''2074''"
  by (simp add: showNat.simps digitChar_def js_string_defs)

lemma showNat_2012: "showNat 2012 = ustr ''2012''"
  by (simp add: showNat.simps digitChar_def js_string_defs)

lemma showNat_1912: "showNat 1912 = ustr ''1912''"
  by (simp add: showNat.simps digitChar_def js_string_defs)

text \<open>The two dates of the specimen, as a function of the year the clock shows.\<close>

lemma formatMRZDate_740812:
  "0 \<le> yr \<Longrightarrow> formatMRZDate yr (ustr ''740812'') =
     (if yr mod 100 < 64 then ustr ''1974-08-12'' else ustr ''2074-08-12'')"
  using showNat_1974 showNat_2074
  by (simp add: formatMRZDate_def parseInt10_def digitVal_def showInt_def jsRem_def Let_def
      js_string_defs)

lemma formatMRZDate_120415:
  "0 \<le> yr \<Longrightarrow> formatMRZDate yr (ustr ''120415'') =
     (if yr mod 100 < 2 then ustr ''1912-04-15'' else ustr ''2012-04-15'')"
  using showNat_1912 showNat_2012
  by (simp add: formatMRZDate_def parseInt10_def digitVal_def showInt_def jsRem_def Let_def
      js_string_defs)

lemma icao_clean: "cleanMRZLine1 icao_line1 = icao_line1"
  by (simp add: icao_line1_def cleanMRZLine1_def js_string_defs)

lemma icao_fields:
  "parseMRZ yr (icao_line1, icao_line2) =
     \<lparr> passportNumber = ustr ''L898902C3'', fullName = ustr ''ANNA MARIA ERIKSSON'',
       surname = ustr ''ERIKSSON'', givenNames = ustr ''ANNA MARIA'', nationality = ustr ''UTO'',
       dateOfBirth = formatMRZDate yr (ustr ''740812''), sex = ustr ''Female'',
       dateOfExpiry = formatMRZDate yr (ustr ''120415''),
       mrzLine1 = icao_line1, mrzLine2 = icao_line2 \<rparr>"
  unfolding parseMRZ_def parseMRZ_with_def icao_clean fst_conv snd_conv Let_def
  by (simp add: icao_line1_def icao_line2_def joinNonEmpty_def js_string_defs)

text \<open>The decoder of \<^verbatim>\<open>src/App.tsx\<close> reads the specimen in the same way.\<close>

lemma icao_clean_App: "cleanMRZLine1_App icao_line1 = icao_line1"
  by (simp add: icao_line1_def cleanMRZLine1_App_def js_string_defs)

lemma icao_fields_App:
  "parseMRZ_App yr (icao_line1, icao_line2) = parseMRZ yr (icao_line1, icao_line2)"
  by (simp add: parseMRZ_App_def parseMRZ_def parseMRZ_with_def icao_clean icao_clean_App)

text \<open>
  Claim C1, as amended. For the ICAO specimen lines and a current year of 2022 or later,
  the decoder returns passportNumber \<^verbatim>\<open>L898902C3\<close>, surname \<^verbatim>\<open>ERIKSSON\<close>, givenNames
  \<^verbatim>\<open>ANNA MARIA\<close>, nationality \<^verbatim>\<open>UTO\<close>, dateOfBirth \<^verbatim>\<open>1974-08-12\<close>, sex \<^verbatim>\<open>Female\<close> and
  dateOfExpiry \<^verbatim>\<open>2012-04-15\<close> exactly when the last two digits of the year lie between
  02 and 63, as they do from 2022 to 2063: the century of a date is chosen by comparing
  its two digits with the current two-digit year plus ten.
\<close>

theorem parseMRZ_icao_sample:
  "2022 \<le> yr \<Longrightarrow>
     (passportNumber (parseMRZ yr (icao_line1, icao_line2)) = ustr ''L898902C3''
      \<and> surname (parseMRZ yr (icao_line1, icao_line2)) = ustr ''ERIKSSON''
      \<and> givenNames (parseMRZ yr (icao_line1, icao_line2)) = ustr ''ANNA MARIA''
      \<and> nationality (parseMRZ yr (icao_line1, icao_line2)) = ustr ''UTO''
      \<and> dateOfBirth (parseMRZ yr (icao_line1, icao_line2)) = ustr ''1974-08-12''
      \<and> sex (parseMRZ yr (icao_line1, icao_line2)) = ustr ''Female''
      \<and> dateOfExpiry (parseMRZ yr (icao_line1, icao_line2)) = ustr ''2012-04-15'')
     \<longleftrightarrow> (2 \<le> yr mod 100 \<and> yr mod 100 \<le> 63)"
proof -
  assume "2022 \<le> yr"
  then have nn: "0 \<le> yr" by simp
  have d1: "ustr ''2074-08-12'' \<noteq> ustr ''1974-08-12''" by (simp add: js_string_defs)
  have d2: "ustr ''1912-04-15'' \<noteq> ustr ''2012-04-15''" by (simp add: js_string_defs)
  show ?thesis
    unfolding icao_fields using d1 d2
    by (simp add: formatMRZDate_740812 [OF nn] formatMRZDate_120415 [OF nn])
qed

theorem parseMRZ_icao_sample_witness:
  "dateOfBirth (parseMRZ 2022 (icao_line1, icao_line2)) = ustr ''1974-08-12''
   \<and> dateOfExpiry (parseMRZ 2063 (icao_line1, icao_line2)) = ustr ''2012-04-15''"
  using parseMRZ_icao_sample [of 2022] parseMRZ_icao_sample [of 2063] by simp

text \<open>In 2064 the birth date of the specimen is read as a date of 2074.\<close>

theorem parseMRZ_icao_sample_counterexample:
  "(2022::int) \<le> 2064
   \<and> dateOfBirth (parseMRZ 2064 (icao_line1, icao_line2)) \<noteq> ustr ''1974-08-12''"
proof -
  have "formatMRZDate 2064 (ustr ''740812'') = ustr ''2074-08-12''"
    by (simp add: formatMRZDate_740812)
  then show ?thesis
    unfolding icao_fields by (simp add: js_string_defs)
qed

subsection \<open>The date normaliser\<close>

lemma replaceAllChar_single: "replaceAllChar c [d] s = map (\<lambda>x. if x = c then d else x) s"
  by (induction s) (simp_all add: replaceAllChar_def)

lemma clean_chain:
  "replaceAllChar LETTER_Z [DIGIT_2] (replaceAllChar LETTER_S [DIGIT_5]
     (replaceAllChar LETTER_I [DIGIT_1] (replaceAllChar LETTER_O [DIGIT_0] s))) = map ocrDigitTable s"
  by (simp add: replaceAllChar_single ocrDigitTable_def)

text \<open>When \<^verbatim>\<open>parseInt\<close> fails on two characters: no digit comes first, nor after one
  leading white space or sign.\<close>

lemma digit_not_space: "isDigit c \<Longrightarrow> \<not> isWhiteSpace c"
  unfolding isDigit_def isWhiteSpace_def isLineTerminator_def by auto

lemma digit_not_sign: "isDigit c \<Longrightarrow> c \<noteq> DASH \<and> c \<noteq> PLUS"
  unfolding isDigit_def by auto

lemma space_not_sign: "isWhiteSpace c \<Longrightarrow> c \<noteq> DASH \<and> c \<noteq> PLUS"
  unfolding isWhiteSpace_def isLineTerminator_def by auto

lemma parseInt10_two:
  "parseInt10 [a, b] = None \<longleftrightarrow>
     \<not> (isDigit a \<or> ((isWhiteSpace a \<or> a = DASH \<or> a = PLUS) \<and> isDigit b))"
  using digit_not_space [of a] digit_not_space [of b] digit_not_sign [of a] digit_not_sign [of b]
    space_not_sign [of a] space_not_sign [of b]
  by (cases "isDigit a"; cases "isDigit b"; cases "isWhiteSpace a"; cases "isWhiteSpace b")
     (auto simp add: parseInt10_def Let_def)

lemma parseInt10_pair: "parseInt10 [a, b] = yearOfTwo a b"
  using digit_not_space [of a] digit_not_space [of b] digit_not_sign [of a] digit_not_sign [of b]
    space_not_sign [of a] space_not_sign [of b]
  by (cases "isDigit a"; cases "isDigit b"; cases "isWhiteSpace a"; cases "isWhiteSpace b")
     (auto simp add: parseInt10_def yearOfTwo_def Let_def)

lemma length_6_cases:
  "length s = 6 \<Longrightarrow> \<exists>a b c d e f. s = [a, b, c, d, e, f]"
  by (cases s; cases "tl s"; cases "tl (tl s)"; cases "tl (tl (tl s))";
      cases "tl (tl (tl (tl s)))"; cases "tl (tl (tl (tl (tl s))))") auto

text \<open>
  Claim C6, as amended. For every input string the date normaliser returns the empty
  string when the input is not exactly 6 characters long or contains the filler \<^verbatim>\<open><\<close>.
  Otherwise it applies the table \<^verbatim>\<open>O\<close> to \<^verbatim>\<open>0\<close>, \<^verbatim>\<open>I\<close> to \<^verbatim>\<open>1\<close>, \<^verbatim>\<open>S\<close> to \<^verbatim>\<open>5\<close>, \<^verbatim>\<open>Z\<close> to \<^verbatim>\<open>2\<close>
  character by character and reads the year from the first two cleaned characters as
  \<^verbatim>\<open>parseInt\<close> does: when a year is read, also from a single digit, the result is the
  date made of the year put in its century and of the cleaned characters 3 to 6; only
  when no year is read is the result the cleaned 6-character string.
\<close>

theorem formatMRZDate_cases:
  "(length s \<noteq> 6 \<or> FILLER \<in> set s \<longrightarrow> formatMRZDate yr s = [])
   \<and> (length s = 6 \<and> FILLER \<notin> set s \<longrightarrow>
        formatMRZDate yr s =
          (case yearOfTwo (map ocrDigitTable s ! 0) (map ocrDigitTable s ! 1) of
             None \<Rightarrow> map ocrDigitTable s
           | Some year \<Rightarrow> isoDate yr year (map ocrDigitTable s)))"
proof (intro conjI impI)
  assume "length s \<noteq> 6 \<or> FILLER \<in> set s"
  then show "formatMRZDate yr s = []"
    by (auto simp add: formatMRZDate_def)
next
  assume h: "length s = 6 \<and> FILLER \<notin> set s"
  then obtain a b c d e f where s: "s = [a, b, c, d, e, f]"
    using length_6_cases by blast
  have valid: "\<not> (s = [] \<or> length s \<noteq> 6 \<or> FILLER \<in> set s)"
    using h by auto
  have "formatMRZDate yr s =
      (case parseInt10 (substring 0 2 (map ocrDigitTable s)) of
         None \<Rightarrow> map ocrDigitTable s
       | Some year \<Rightarrow>
           showInt (if year > jsRem yr 100 + 10 then 1900 + year else 2000 + year)
             @ [DASH] @ substring 2 4 (map ocrDigitTable s) @ [DASH]
             @ substring 4 6 (map ocrDigitTable s))"
    unfolding formatMRZDate_def clean_chain using valid
    by (simp add: Let_def split: option.splits)
  also have "\<dots> =
      (case yearOfTwo (map ocrDigitTable s ! 0) (map ocrDigitTable s ! 1) of
         None \<Rightarrow> map ocrDigitTable s
       | Some year \<Rightarrow> isoDate yr year (map ocrDigitTable s))"
    unfolding s by (simp add: substring_def parseInt10_pair isoDate_def split: option.splits)
  finally show "formatMRZDate yr s =
      (case yearOfTwo (map ocrDigitTable s ! 0) (map ocrDigitTable s ! 1) of
         None \<Rightarrow> map ocrDigitTable s
       | Some year \<Rightarrow> isoDate yr year (map ocrDigitTable s))" .
qed

lemma showNat_1995: "showNat 1995 = ustr ''1995''"
  by (simp add: showNat.simps digitChar_def js_string_defs)

lemma showNat_2007: "showNat 2007 = ustr ''2007''"
  by (simp add: showNat.simps digitChar_def js_string_defs)

lemmas date_eval = yearOfTwo_def isoDate_def ocrDigitTable_def digitVal_def showInt_def jsRem_def
  showNat_1974 showNat_2012 showNat_1995 showNat_2007 js_string_defs

theorem formatMRZDate_cases_witness:
  "formatMRZDate 2026 (ustr ''74<812'') = []
   \<and> formatMRZDate 2026 (ustr ''7408'') = []
   \<and> formatMRZDate 2026 (ustr ''XYZIOS'') = ustr ''XY2105''
   \<and> formatMRZDate 2026 (ustr ''740812'') = ustr ''1974-08-12''
   \<and> formatMRZDate 2026 (ustr ''I20415'') = ustr ''2012-04-15''
   \<and> formatMRZDate 2026 (ustr ''9S0I0Z'') = ustr ''1995-01-02''"
proof -
  have "formatMRZDate 2026 (ustr ''74<812'') = []"
    using formatMRZDate_cases [of "ustr ''74<812''" 2026] by (simp add: js_string_defs)
  moreover have "formatMRZDate 2026 (ustr ''7408'') = []"
    using formatMRZDate_cases [of "ustr ''7408''" 2026] by (simp add: js_string_defs)
  moreover have "formatMRZDate 2026 (ustr ''XYZIOS'') = ustr ''XY2105''"
    using formatMRZDate_cases [of "ustr ''XYZIOS''" 2026] by (simp add: date_eval)
  moreover have "formatMRZDate 2026 (ustr ''740812'') = ustr ''1974-08-12''"
    using formatMRZDate_cases [of "ustr ''740812''" 2026] by (simp add: date_eval)
  moreover have "formatMRZDate 2026 (ustr ''I20415'') = ustr ''2012-04-15''"
    using formatMRZDate_cases [of "ustr ''I20415''" 2026] by (simp add: date_eval)
  moreover have "formatMRZDate 2026 (ustr ''9S0I0Z'') = ustr ''1995-01-02''"
    using formatMRZDate_cases [of "ustr ''9S0I0Z''" 2026] by (simp add: date_eval)
  ultimately show ?thesis by blast
qed

text \<open>
  \<^verbatim>\<open>7A\<close> is no two-digit year, yet \<^verbatim>\<open>parseInt\<close> reads 7 from it and the result is a date,
  not the cleaned string.
\<close>

theorem formatMRZDate_cases_counterexample:
  "length (ustr ''7A0812'') = 6 \<and> FILLER \<notin> set (ustr ''7A0812'')
   \<and> map ocrDigitTable (ustr ''7A0812'') = ustr ''7A0812''
   \<and> \<not> isDigit (ustr ''7A0812'' ! 1)
   \<and> formatMRZDate 2026 (ustr ''7A0812'') = ustr ''2007-08-12''
   \<and> formatMRZDate 2026 (ustr ''7A0812'') \<noteq> ustr ''7A0812''"
  using showNat_2007
  by (simp add: formatMRZDate_def parseInt10_def digitVal_def showInt_def jsRem_def Let_def
      ocrDigitTable_def js_string_defs)

subsection \<open>The corrector\<close>

lemma includesSep_iff: "includesSep s \<longleftrightarrow> (\<exists>u v. s = u @ FILLER # FILLER # v)"
proof
  show "includesSep s \<Longrightarrow> \<exists>u v. s = u @ FILLER # FILLER # v"
  proof (induction s rule: includesSep.induct)
    case (1 a b rest)
    show ?case
    proof (cases "a = FILLER \<and> b = FILLER")
      case True
      then have "a # b # rest = [] @ FILLER # FILLER # rest" by simp
      then show ?thesis by blast
    next
      case False
      with 1 obtain u v where "b # rest = u @ FILLER # FILLER # v" by auto
      then have "a # b # rest = (a # u) @ FILLER # FILLER # v" by simp
      then show ?thesis by blast
    qed
  qed simp_all
next
  assume "\<exists>u v. s = u @ FILLER # FILLER # v"
  then obtain u v where s: "s = u @ FILLER # FILLER # v" by blast
  have "includesSep (u @ FILLER # FILLER # v)"
  proof (induction u)
    case Nil
    show ?case by simp
  next
    case (Cons a u)
    then show ?case by (cases "u @ FILLER # FILLER # v") auto
  qed
  with s show "includesSep s" by simp
qed

lemma testLetterSepLetter_Cons: "testLetterSepLetter s \<Longrightarrow> testLetterSepLetter (a # s)"
  by (cases s rule: testLetterSepLetter.cases) auto

lemma testLetterSepLetter_iff:
  "testLetterSepLetter s \<longleftrightarrow>
     (\<exists>u a d v. s = u @ a # FILLER # FILLER # d # v \<and> isUpperAZ a \<and> isUpperAZ d)"
proof
  show "testLetterSepLetter s \<Longrightarrow>
          \<exists>u a d v. s = u @ a # FILLER # FILLER # d # v \<and> isUpperAZ a \<and> isUpperAZ d"
  proof (induction s rule: testLetterSepLetter.induct)
    case (1 a b c d rest)
    show ?case
    proof (cases "isUpperAZ a \<and> b = FILLER \<and> c = FILLER \<and> isUpperAZ d")
      case True
      then have "a # b # c # d # rest = [] @ a # FILLER # FILLER # d # rest \<and> isUpperAZ a \<and> isUpperAZ d"
        by simp
      then show ?thesis by blast
    next
      case False
      with 1 obtain u x y v where "b # c # d # rest = u @ x # FILLER # FILLER # y # v"
        and xy: "isUpperAZ x" "isUpperAZ y" by auto
      then have "a # b # c # d # rest = (a # u) @ x # FILLER # FILLER # y # v" by simp
      with xy show ?thesis by blast
    qed
  qed simp_all
next
  assume "\<exists>u a d v. s = u @ a # FILLER # FILLER # d # v \<and> isUpperAZ a \<and> isUpperAZ d"
  then obtain u a d v where s: "s = u @ a # FILLER # FILLER # d # v"
    and ad: "isUpperAZ a" "isUpperAZ d" by blast
  have "testLetterSepLetter (u @ a # FILLER # FILLER # d # v)"
    using ad by (induction u) (simp_all add: testLetterSepLetter_Cons)
  with s show "testLetterSepLetter s" by simp
qed

lemma testLetterSepEnd_Cons: "3 \<le> length s \<Longrightarrow> testLetterSepEnd (x # s) = testLetterSepEnd s"
  by (cases s; cases "tl s"; cases "tl (tl s)") auto

lemma testLetterSepEnd_iff:
  "testLetterSepEnd s \<longleftrightarrow> (\<exists>u a. s = u @ [a, FILLER, FILLER] \<and> isUpperAZ a)"
proof
  show "testLetterSepEnd s \<Longrightarrow> \<exists>u a. s = u @ [a, FILLER, FILLER] \<and> isUpperAZ a"
  proof (induction s)
    case Nil
    then show ?case by simp
  next
    case (Cons x s)
    show ?case
    proof (cases "3 \<le> length s")
      case True
      with Cons obtain u a where "s = u @ [a, FILLER, FILLER]" and a: "isUpperAZ a"
        by (auto simp add: testLetterSepEnd_Cons)
      then have "x # s = (x # u) @ [a, FILLER, FILLER]" by simp
      with a show ?thesis by blast
    next
      case False
      then consider "s = []" | b where "s = [b]" | b c where "s = [b, c]"
        by (cases s; cases "tl s"; cases "tl (tl s)") auto
      then show ?thesis
      proof cases
        case 3
        with Cons.prems have "x # s = [] @ [x, FILLER, FILLER] \<and> isUpperAZ x" by simp
        then show ?thesis by blast
      qed (use Cons.prems in simp_all)
    qed
  qed
next
  assume "\<exists>u a. s = u @ [a, FILLER, FILLER] \<and> isUpperAZ a"
  then obtain u a where s: "s = u @ [a, FILLER, FILLER]" and a: "isUpperAZ a" by blast
  have "testLetterSepEnd (u @ [a, FILLER, FILLER])"
  proof (induction u)
    case Nil
    show ?case using a by simp
  next
    case (Cons x u)
    then show ?case by (simp add: testLetterSepEnd_Cons)
  qed
  with s show "testLetterSepEnd s" by simp
qed

lemma testSepStart_iff: "testSepStart s \<longleftrightarrow> (\<exists>v. s = FILLER # FILLER # v)"
  by (cases s rule: includesSep.cases) (auto simp add: testSepStart_def startsWith_def)

text \<open>
  Claim C4, as amended. For every line of length at least 44, the corrector returns the
  line unchanged when its name section (after position 5) contains \<^verbatim>\<open><<\<close> between two
  letters, or starts with \<^verbatim>\<open><<\<close>, or ends with a letter and \<^verbatim>\<open><<\<close>; the corrector of
  \<^verbatim>\<open>src/App.tsx\<close> returns it unchanged whenever the name section contains \<^verbatim>\<open><<\<close>.
\<close>

theorem cleanMRZLine1_noop:
  "44 \<le> length line \<Longrightarrow>
     (((\<exists>u a d v. substringFrom 5 line = u @ a # FILLER # FILLER # d # v \<and> isUpperAZ a \<and> isUpperAZ d)
        \<or> (\<exists>v. substringFrom 5 line = FILLER # FILLER # v)
        \<or> (\<exists>u a. substringFrom 5 line = u @ [a, FILLER, FILLER] \<and> isUpperAZ a))
       \<longrightarrow> cleanMRZLine1 line = line)
     \<and> ((\<exists>u v. substringFrom 5 line = u @ FILLER # FILLER # v) \<longrightarrow> cleanMRZLine1_App line = line)"
  unfolding testLetterSepLetter_iff [symmetric] testSepStart_iff [symmetric]
    testLetterSepEnd_iff [symmetric] includesSep_iff [symmetric]
  by (auto simp add: cleanMRZLine1_def cleanMRZLine1_App_def Let_def)

theorem cleanMRZLine1_noop_witness:
  "44 \<le> length icao_line1
   \<and> substringFrom 5 icao_line1 = ustr ''ERIKSSON'' @ FILLER # FILLER # ustr ''ANNA<MARIA<<<<<<<<<<<<<<<<<<<''
   \<and> cleanMRZLine1 icao_line1 = icao_line1 \<and> cleanMRZLine1_App icao_line1 = icao_line1"
proof -
  have len: "44 \<le> length icao_line1"
    by (simp add: icao_line1_def ustr_def)
  have sub: "substringFrom 5 icao_line1 =
      ustr ''ERIKSSO'' @ 0x4E # FILLER # FILLER # 0x41 # ustr ''NNA<MARIA<<<<<<<<<<<<<<<<<<<''"
    by (simp add: icao_line1_def js_string_defs)
  have h1: "\<exists>u a d v. substringFrom 5 icao_line1 = u @ a # FILLER # FILLER # d # v
      \<and> isUpperAZ a \<and> isUpperAZ d"
    using sub by (intro exI [of _ "ustr ''ERIKSSO''"] exI [of _ "0x4E"] exI [of _ "0x41"]
        exI [of _ "ustr ''NNA<MARIA<<<<<<<<<<<<<<<<<<<''"]) (simp add: isUpperAZ_def)
  have h2: "\<exists>u v. substringFrom 5 icao_line1 = u @ FILLER # FILLER # v"
    using sub by (intro exI [of _ "ustr ''ERIKSSON''"]
        exI [of _ "ustr ''ANNA<MARIA<<<<<<<<<<<<<<<<<<<''"]) (simp add: js_string_defs)
  from cleanMRZLine1_noop [OF len] h1 h2 len show ?thesis
    by (simp add: icao_line1_def js_string_defs)
qed

text \<open>A holder with a single name: the name section contains \<^verbatim>\<open><<\<close>, and the corrector
  rewrites the \<^verbatim>\<open>CC\<close> of the name.\<close>

theorem cleanMRZLine1_noop_counterexample:
  "44 \<le> length mccarthy_line1
   \<and> includesSep (substringFrom 5 mccarthy_line1)
   \<and> cleanMRZLine1 mccarthy_line1 = ustr ''P<USAM<<ARTHY<<<<<<<<<<<<<<<<<<<<<<<<<<<<<<<''
   \<and> cleanMRZLine1 mccarthy_line1 \<noteq> mccarthy_line1"
  by (simp add: mccarthy_line1_def cleanMRZLine1_def testSepStart_def js_string_defs)

lemma length_restoreTrailingFiller [simp]: "length (restoreTrailingFiller s) = length s"
  by (induction s) simp_all

lemma length_restoreSeparator [simp]: "length (restoreSeparator s) = length s"
  by (induction s rule: restoreSeparator.induct) simp_all

lemma restoreSeparator_changed:
  "restoreSeparator s \<noteq> s \<Longrightarrow> testLetterSepLetter (restoreSeparator s)"
  by (induction s rule: restoreSeparator.induct) (auto simp add: testLetterSepLetter_Cons)

lemma restoreTrailingFiller_fixed:
  "s \<noteq> [] \<Longrightarrow> last s = FILLER \<Longrightarrow> restoreTrailingFiller s = s"
proof (induction s)
  case Nil
  then show ?case by simp
next
  case (Cons c cs)
  have "FILLER \<in> set (c # cs)"
    using Cons.prems last_in_set [of "c # cs"] by simp
  moreover have "\<not> isCELA FILLER"
    by (simp add: isCELA_def)
  ultimately have "\<not> list_all isCELA (c # cs)"
    unfolding list_all_iff by blast
  moreover have "restoreTrailingFiller cs = cs"
    using Cons by (cases "cs = []") simp_all
  ultimately show ?case by auto
qed

lemma restoreTrailingFiller_changed:
  "restoreTrailingFiller s \<noteq> s \<Longrightarrow>
     restoreTrailingFiller s \<noteq> [] \<and> last (restoreTrailingFiller s) = FILLER"
  by (induction s) (auto split: if_splits)

lemma restoreTrailingFiller_idem:
  "restoreTrailingFiller (restoreTrailingFiller s) = restoreTrailingFiller s"
  using restoreTrailingFiller_changed [of s] restoreTrailingFiller_fixed [of "restoreTrailingFiller s"]
  by (cases "restoreTrailingFiller s = s") simp_all

lemma length_cleanMRZLine1: "length (cleanMRZLine1 line) = length line"
  by (simp add: cleanMRZLine1_def Let_def substring_def substringFrom_def)

lemma cleanMRZLine1_unfold:
  "\<not> length l < 44 \<Longrightarrow>
     cleanMRZLine1 l =
       (if testLetterSepLetter (drop 5 l) \<or> testLetterSepEnd (drop 5 l) \<or> testSepStart (drop 5 l)
        then l
        else take 5 l @
          (if \<not> testLetterSepLetter (restoreTrailingFiller (drop 5 l))
           then restoreSeparator (restoreTrailingFiller (drop 5 l))
           else restoreTrailingFiller (drop 5 l)))"
  by (simp add: cleanMRZLine1_def Let_def substringFrom_def substring_def)

lemma cleanMRZLine1_idem: "cleanMRZLine1 (cleanMRZLine1 line) = cleanMRZLine1 line"
proof (cases "length line < 44 \<or> testLetterSepLetter (drop 5 line)
    \<or> testLetterSepEnd (drop 5 line) \<or> testSepStart (drop 5 line)")
  case True
  then have "cleanMRZLine1 line = line"
    by (auto simp add: cleanMRZLine1_def Let_def substringFrom_def)
  then show ?thesis by simp
next
  case False
  define c1 where "c1 = restoreTrailingFiller (drop 5 line)"
  define c2 where "c2 = (if \<not> testLetterSepLetter c1 then restoreSeparator c1 else c1)"
  define out where "out = take 5 line @ c2"
  have out: "cleanMRZLine1 line = out"
    using False by (simp add: cleanMRZLine1_unfold out_def c2_def c1_def)
  have len: "\<not> length out < 44" and tk: "take 5 out = take 5 line" and dr: "drop 5 out = c2"
    using False by (auto simp add: out_def c2_def c1_def)
  have again: "cleanMRZLine1 out =
       (if testLetterSepLetter c2 \<or> testLetterSepEnd c2 \<or> testSepStart c2 then out
        else take 5 line @
          (if \<not> testLetterSepLetter (restoreTrailingFiller c2)
           then restoreSeparator (restoreTrailingFiller c2)
           else restoreTrailingFiller c2))"
    unfolding cleanMRZLine1_unfold [OF len] dr tk ..
  have "cleanMRZLine1 out = out"
  proof (cases "testLetterSepLetter c2")
    case True
    then show ?thesis by (simp add: again)
  next
    case no_sep: False
    have nt: "\<not> testLetterSepLetter c1"
      using no_sep by (auto simp add: c2_def split: if_splits)
    then have c2: "c2 = restoreSeparator c1"
      by (simp add: c2_def)
    with no_sep restoreSeparator_changed [of c1] have fixed: "restoreSeparator c1 = c1"
      by metis
    with c2 have same: "c2 = c1"
      by simp
    have rtf: "restoreTrailingFiller c2 = c2"
      unfolding same c1_def by (rule restoreTrailingFiller_idem)
    have rs: "restoreSeparator c2 = c2"
      using fixed same by simp
    show ?thesis
      unfolding again rtf rs by (simp add: out_def [symmetric])
  qed
  then show ?thesis by (simp add: out)
qed

lemma includesSep_Cons: "includesSep s \<Longrightarrow> includesSep (a # s)"
  by (cases s) auto

lemma length_restoreTrailingFiller_App [simp]: "length (restoreTrailingFiller_App s) = length s"
  by (induction s rule: restoreTrailingFiller_App.induct) simp_all

lemma restoreTrailingFiller_App_changed:
  "restoreTrailingFiller_App s \<noteq> s \<Longrightarrow> includesSep (restoreTrailingFiller_App s)"
  by (induction s rule: restoreTrailingFiller_App.induct) (auto simp add: includesSep_Cons)

lemma restoreSeparator_App_cases:
  "restoreSeparator_App s = s
   \<or> (\<exists>i. i + 2 \<le> length s \<and> restoreSeparator_App s = take i s @ [FILLER, FILLER] @ drop (i + 2) s)"
proof (cases "filter (sepMatchAt s) (rev [0..<length s])")
  case Nil
  then show ?thesis by (simp add: restoreSeparator_App_def)
next
  case (Cons i rest)
  then have "sepMatchAt s i"
    by (metis Cons_eq_filterD)
  then have "take 2 (drop i s) = [LETTER_C, LETTER_C]"
    by (simp add: sepMatchAt_def)
  then have "length (take 2 (drop i s)) = 2"
    by simp
  then have "i + 2 \<le> length s"
    by simp
  then show ?thesis
    using Cons by (auto simp add: restoreSeparator_App_def)
qed

lemma length_restoreSeparator_App [simp]: "length (restoreSeparator_App s) = length s"
  using restoreSeparator_App_cases [of s] by auto

lemma restoreSeparator_App_changed:
  "restoreSeparator_App s \<noteq> s \<Longrightarrow> includesSep (restoreSeparator_App s)"
  using restoreSeparator_App_cases [of s] unfolding includesSep_iff by auto

lemma cleanMRZLine1_App_unfold:
  "\<not> length l < 44 \<Longrightarrow>
     cleanMRZLine1_App l =
       (if includesSep (drop 5 l) then l
        else take 5 l @
          (if \<not> includesSep (restoreTrailingFiller_App (drop 5 l))
           then restoreSeparator_App (restoreTrailingFiller_App (drop 5 l))
           else restoreTrailingFiller_App (drop 5 l)))"
  by (simp add: cleanMRZLine1_App_def Let_def substringFrom_def substring_def)

lemma cleanMRZLine1_App_idem:
  "cleanMRZLine1_App (cleanMRZLine1_App line) = cleanMRZLine1_App line"
proof (cases "length line < 44 \<or> includesSep (drop 5 line)")
  case True
  then have "cleanMRZLine1_App line = line"
    by (auto simp add: cleanMRZLine1_App_def Let_def substringFrom_def)
  then show ?thesis by simp
next
  case False
  define c1 where "c1 = restoreTrailingFiller_App (drop 5 line)"
  define c2 where "c2 = (if \<not> includesSep c1 then restoreSeparator_App c1 else c1)"
  define out where "out = take 5 line @ c2"
  have out: "cleanMRZLine1_App line = out"
    using False by (simp add: cleanMRZLine1_App_unfold out_def c2_def c1_def)
  have len: "\<not> length out < 44" and dr: "drop 5 out = c2"
    using False by (auto simp add: out_def c2_def c1_def)
  have "cleanMRZLine1_App out = out"
  proof (cases "includesSep c2")
    case True
    then show ?thesis
      unfolding cleanMRZLine1_App_unfold [OF len] dr by simp
  next
    case no_sep: False
    have nt: "\<not> includesSep c1"
      using no_sep by (auto simp add: c2_def split: if_splits)
    then have c2: "c2 = restoreSeparator_App c1"
      by (simp add: c2_def)
    with no_sep restoreSeparator_App_changed [of c1] have "restoreSeparator_App c1 = c1"
      by metis
    with c2 have "c2 = c1"
      by simp
    moreover have "c1 = drop 5 line"
      using nt restoreTrailingFiller_App_changed [of "drop 5 line"] unfolding c1_def by metis
    ultimately have "out = line"
      by (simp add: out_def)
    with out show ?thesis by simp
  qed
  then show ?thesis by (simp add: out)
qed

text \<open>
  Claim C5. The corrector is idempotent: applied to its own output it changes nothing.
  This holds for the corrector of both source files.
\<close>

theorem cleanMRZLine1_idempotent:
  "cleanMRZLine1 (cleanMRZLine1 s) = cleanMRZLine1 s
   \<and> cleanMRZLine1_App (cleanMRZLine1_App s) = cleanMRZLine1_App s"
  by (simp add: cleanMRZLine1_idem cleanMRZLine1_App_idem)

subsection \<open>The locator\<close>

lemma replicate_numeral: "replicate (numeral n) x = x # replicate (pred_numeral n) x"
  by (simp add: numeral_eq_Suc)

lemma length_pad44 [simp]: "length (pad44 l) = 44"
  by (simp add: pad44_def substring_def padEnd_def)

lemma scanPairs_first:
  "i + 1 < length ls \<Longrightarrow> qualifies (ls ! i) (ls ! (i + 1)) \<Longrightarrow>
   (\<forall>j < i. \<not> qualifies (ls ! j) (ls ! (j + 1))) \<Longrightarrow>
   scanPairs ls = Some (pad44 (ls ! i), pad44 (ls ! (i + 1)))"
proof (induction ls arbitrary: i rule: scanPairs.induct)
  case (1 l1 l2 rest)
  show ?case
  proof (cases i)
    case 0
    with 1 show ?thesis by (simp add: qualifies_def)
  next
    case (Suc k)
    with "1.prems" have nq: "\<not> qualifies l1 l2" by auto
    have k: "k + 1 < length (l2 # rest)" "qualifies ((l2 # rest) ! k) ((l2 # rest) ! (k + 1))"
      "\<forall>j < k. \<not> qualifies ((l2 # rest) ! j) ((l2 # rest) ! (j + 1))"
      using "1.prems" Suc by auto
    have "scanPairs (l2 # rest) = Some (pad44 ((l2 # rest) ! k), pad44 ((l2 # rest) ! (k + 1)))"
    proof (cases "startsWith [LETTER_P] l1 \<and> 40 \<le> length l1 \<and> 40 \<le> length l2")
      case True
      with nq have "\<not> 5 < countDigits (pad44 l2)" by (simp add: qualifies_def)
      with True show ?thesis using "1.IH"(1) k by simp
    next
      case False
      then show ?thesis using "1.IH"(2) k by simp
    qed
    moreover have "scanPairs (l1 # l2 # rest) = scanPairs (l2 # rest)"
      using nq by (auto simp add: qualifies_def)
    ultimately show ?thesis using Suc by simp
  qed
qed simp_all

lemma scanPairs_None:
  "scanPairs ls = None \<longleftrightarrow> (\<forall>i. i + 1 < length ls \<longrightarrow> \<not> qualifies (ls ! i) (ls ! (i + 1)))"
proof (induction ls rule: scanPairs.induct)
  case (1 l1 l2 rest)
  have step: "scanPairs (l1 # l2 # rest) = None \<longleftrightarrow> \<not> qualifies l1 l2 \<and> scanPairs (l2 # rest) = None"
    by (auto simp add: qualifies_def)
  have ih: "scanPairs (l2 # rest) = None \<longleftrightarrow>
      (\<forall>i. i + 1 < length (l2 # rest) \<longrightarrow> \<not> qualifies ((l2 # rest) ! i) ((l2 # rest) ! (i + 1)))"
    if "\<not> qualifies l1 l2"
    using 1 that by (auto simp add: qualifies_def)
  show ?case
  proof (cases "qualifies l1 l2")
    case True
    then have "\<not> (\<forall>i. i + 1 < length (l1 # l2 # rest) \<longrightarrow>
        \<not> qualifies ((l1 # l2 # rest) ! i) ((l1 # l2 # rest) ! (i + 1)))"
      by (auto intro: exI [of _ 0])
    with True step show ?thesis by blast
  next
    case False
    have "(\<forall>i. i + 1 < length (l1 # l2 # rest) \<longrightarrow>
        \<not> qualifies ((l1 # l2 # rest) ! i) ((l1 # l2 # rest) ! (i + 1)))
      \<longleftrightarrow> (\<forall>i. i + 1 < length (l2 # rest) \<longrightarrow> \<not> qualifies ((l2 # rest) ! i) ((l2 # rest) ! (i + 1)))"
      (is "?L \<longleftrightarrow> ?R")
    proof
      assume l: ?L
      show ?R
      proof (intro allI impI)
        fix i assume "i + 1 < length (l2 # rest)"
        with l [rule_format, of "Suc i"] show "\<not> qualifies ((l2 # rest) ! i) ((l2 # rest) ! (i + 1))"
          by simp
      qed
    next
      assume r: ?R
      show ?L
      proof (intro allI impI)
        fix i assume i: "i + 1 < length (l1 # l2 # rest)"
        show "\<not> qualifies ((l1 # l2 # rest) ! i) ((l1 # l2 # rest) ! (i + 1))"
        proof (cases i)
          case 0
          with False show ?thesis by simp
        next
          case (Suc k)
          with i r [rule_format, of k] show ?thesis by simp
        qed
      qed
    qed
    with step ih [OF False] False show ?thesis by simp
  qed
qed simp_all

lemma locateInLines_first:
  "i + 1 < length ls \<Longrightarrow> qualifies (ls ! i) (ls ! (i + 1)) \<Longrightarrow>
   (\<forall>j < i. \<not> qualifies (ls ! j) (ls ! (j + 1))) \<Longrightarrow>
   locateInLines ls = Some (pad44 (ls ! i), pad44 (ls ! (i + 1)))"
  by (simp add: locateInLines_def scanPairs_first)

lemma two_pair_normalized:
  "normalizedLines asciiToUpperCase two_pair_transcript = two_pair_lines"
  "normalizedLines_App asciiToUpperCase two_pair_transcript = two_pair_lines"
  by (simp_all add: normalizedLines_def normalizedLines_App_def normalizeLine_def
      normalizeLine_App_def replaceBrackets_def two_pair_transcript_def two_pair_lines_def
      splitNewline_def asciiToUpperCase_def js_string_defs)

lemma locateInLines_first_conj:
  "i + 1 < length ls \<and> qualifies (ls ! i) (ls ! (i + 1))
     \<and> (\<forall>j < i. \<not> qualifies (ls ! j) (ls ! (j + 1))) \<Longrightarrow>
   locateInLines ls = Some (pad44 (ls ! i), pad44 (ls ! (i + 1)))"
  using locateInLines_first [of i ls] by blast

lemma locateInLines_some:
  assumes "\<exists>i. i + 1 < length ls \<and> qualifies (ls ! i) (ls ! (i + 1))"
  shows "\<exists>i. i + 1 < length ls \<and> qualifies (ls ! i) (ls ! (i + 1))
    \<and> (\<forall>j < i. \<not> qualifies (ls ! j) (ls ! (j + 1)))
    \<and> locateInLines ls = Some (pad44 (ls ! i), pad44 (ls ! (i + 1)))"
proof -
  define m where "m = (LEAST i. i + 1 < length ls \<and> qualifies (ls ! i) (ls ! (i + 1)))"
  have m: "m + 1 < length ls \<and> qualifies (ls ! m) (ls ! (m + 1))"
    unfolding m_def using assms by (rule LeastI_ex)
  have least: "\<not> qualifies (ls ! j) (ls ! (j + 1))" if "j < m" for j
  proof
    assume "qualifies (ls ! j) (ls ! (j + 1))"
    moreover from that m have "j + 1 < length ls" by simp
    ultimately have "m \<le> j"
      unfolding m_def by (intro Least_le) simp
    with that show False by simp
  qed
  then have "\<forall>j < m. \<not> qualifies (ls ! j) (ls ! (j + 1))"
    by blast
  with m locateInLines_first [of m ls] show ?thesis
    by blast
qed

lemma pad44_eq: "pad44 l = take 44 (l @ replicate (44 - length l) FILLER)"
  by (simp add: pad44_def substring_def padEnd_def)

text \<open>
  Claim C2. For every transcript, if the normalised lines at \<open>i\<close> and \<open>i + 1\<close> qualify (the
  first starts with \<^verbatim>\<open>P\<close>, both are at least 40 long, and the second, padded with \<^verbatim>\<open><\<close> to
  44 and cut at 44, holds more than 5 digits) and no pair above them does, then the
  locator returns exactly this pair, each line padded with \<^verbatim>\<open><\<close> to 44 characters and cut
  at 44; this holds for the locator of both source files. So whenever some adjacent pair
  qualifies, there is a topmost one, and it is what the locator returns.
\<close>

theorem extractMRZ_topmost_pair:
  "(i + 1 < length (normalizedLines toUpperCase text)
      \<and> qualifies (normalizedLines toUpperCase text ! i) (normalizedLines toUpperCase text ! (i + 1))
      \<and> (\<forall>j < i. \<not> qualifies (normalizedLines toUpperCase text ! j)
                      (normalizedLines toUpperCase text ! (j + 1)))
    \<longrightarrow> extractMRZ toUpperCase text =
          Some (pad44 (normalizedLines toUpperCase text ! i),
                pad44 (normalizedLines toUpperCase text ! (i + 1))))
   \<and> (i + 1 < length (normalizedLines_App toUpperCase text)
      \<and> qualifies (normalizedLines_App toUpperCase text ! i)
           (normalizedLines_App toUpperCase text ! (i + 1))
      \<and> (\<forall>j < i. \<not> qualifies (normalizedLines_App toUpperCase text ! j)
                      (normalizedLines_App toUpperCase text ! (j + 1)))
    \<longrightarrow> extractMRZ_App toUpperCase text =
          Some (pad44 (normalizedLines_App toUpperCase text ! i),
                pad44 (normalizedLines_App toUpperCase text ! (i + 1))))
   \<and> ((\<exists>k. k + 1 < length (normalizedLines toUpperCase text)
          \<and> qualifies (normalizedLines toUpperCase text ! k)
               (normalizedLines toUpperCase text ! (k + 1)))
    \<longrightarrow> (\<exists>k. k + 1 < length (normalizedLines toUpperCase text)
          \<and> qualifies (normalizedLines toUpperCase text ! k)
               (normalizedLines toUpperCase text ! (k + 1))
          \<and> (\<forall>j < k. \<not> qualifies (normalizedLines toUpperCase text ! j)
                          (normalizedLines toUpperCase text ! (j + 1)))
          \<and> extractMRZ toUpperCase text =
              Some (pad44 (normalizedLines toUpperCase text ! k),
                    pad44 (normalizedLines toUpperCase text ! (k + 1)))))
   \<and> length (pad44 l) = 44
   \<and> pad44 l = take 44 (l @ replicate (44 - length l) FILLER)"
proof (intro conjI impI)
  show "length (pad44 l) = 44"
    by (rule length_pad44)
  show "pad44 l = take 44 (l @ replicate (44 - length l) FILLER)"
    by (rule pad44_eq)
  assume "\<exists>k. k + 1 < length (normalizedLines toUpperCase text)
    \<and> qualifies (normalizedLines toUpperCase text ! k) (normalizedLines toUpperCase text ! (k + 1))"
  then show "\<exists>k. k + 1 < length (normalizedLines toUpperCase text)
    \<and> qualifies (normalizedLines toUpperCase text ! k) (normalizedLines toUpperCase text ! (k + 1))
    \<and> (\<forall>j < k. \<not> qualifies (normalizedLines toUpperCase text ! j)
                    (normalizedLines toUpperCase text ! (j + 1)))
    \<and> extractMRZ toUpperCase text =
        Some (pad44 (normalizedLines toUpperCase text ! k),
              pad44 (normalizedLines toUpperCase text ! (k + 1)))"
    unfolding extractMRZ_def by (rule locateInLines_some)
qed (unfold extractMRZ_def extractMRZ_App_def, (erule locateInLines_first_conj)+)

theorem extractMRZ_topmost_pair_witness:
  "normalizedLines asciiToUpperCase two_pair_transcript = two_pair_lines
   \<and> qualifies (two_pair_lines ! 1) (two_pair_lines ! 2)
   \<and> qualifies (two_pair_lines ! 3) (two_pair_lines ! 4)
   \<and> extractMRZ asciiToUpperCase two_pair_transcript = Some (icao_line1, icao_line2)
   \<and> extractMRZ_App asciiToUpperCase two_pair_transcript = Some (icao_line1, icao_line2)"
proof -
  have q0: "\<not> qualifies (two_pair_lines ! 0) (two_pair_lines ! 1)"
    by (simp add: two_pair_lines_def qualifies_def js_string_defs)
  have q1: "qualifies (two_pair_lines ! 1) (two_pair_lines ! 2)"
    by (simp add: two_pair_lines_def qualifies_def pad44_def countDigits_def js_string_defs)
  have q3: "qualifies (two_pair_lines ! 3) (two_pair_lines ! 4)"
    by (simp add: two_pair_lines_def qualifies_def pad44_def countDigits_def js_string_defs)
  have q12: "qualifies (two_pair_lines ! 1) (two_pair_lines ! (1 + 1))"
    by (simp add: two_pair_lines_def qualifies_def pad44_def countDigits_def js_string_defs)
  have least: "\<forall>j < 1. \<not> qualifies (two_pair_lines ! j) (two_pair_lines ! (j + 1))"
    using q0 by simp
  have len: "(1::nat) + 1 < length two_pair_lines"
    by (simp add: two_pair_lines_def)
  have pads: "pad44 (two_pair_lines ! 1) = icao_line1"
    "pad44 (two_pair_lines ! (1 + 1)) = icao_line2"
    by (simp_all add: two_pair_lines_def icao_line1_def icao_line2_def pad44_def
        replicate_numeral js_string_defs)
  note top = extractMRZ_topmost_pair [of 1 asciiToUpperCase two_pair_transcript,
      unfolded two_pair_normalized pads]
  from top len q12 least
  have "extractMRZ asciiToUpperCase two_pair_transcript = Some (icao_line1, icao_line2)"
    and "extractMRZ_App asciiToUpperCase two_pair_transcript = Some (icao_line1, icao_line2)"
    by blast+
  with q1 q3 show ?thesis by (simp add: two_pair_normalized)
qed

lemma set_pad44: "set (pad44 l) \<subseteq> insert FILLER (set l)"
proof -
  have "set (take 44 (l @ replicate (44 - length l) FILLER)) \<subseteq> set (l @ replicate (44 - length l) FILLER)"
    by (rule set_take_subset)
  then show ?thesis
    by (auto simp add: pad44_def substring_def padEnd_def)
qed

lemma startsWith_pad44: "startsWith [LETTER_P] l \<Longrightarrow> startsWith [LETTER_P] (pad44 l)"
  by (cases l) (simp_all add: startsWith_def pad44_def substring_def padEnd_def)

lemma scanPairs_Some:
  "scanPairs ls = Some (a, b) \<Longrightarrow>
     \<exists>l1 l2. l1 \<in> set ls \<and> l2 \<in> set ls \<and> startsWith [LETTER_P] l1 \<and> a = pad44 l1 \<and> b = pad44 l2"
proof (induction ls rule: scanPairs.induct)
  case (1 l1 l2 rest)
  show ?case
  proof (cases "startsWith [LETTER_P] l1 \<and> 40 \<le> length l1 \<and> 40 \<le> length l2
      \<and> 5 < countDigits (pad44 l2)")
    case True
    with "1.prems" have "a = pad44 l1" "b = pad44 l2" by auto
    with True show ?thesis by auto
  next
    case False
    then have "scanPairs (l2 # rest) = Some (a, b)"
      using "1.prems" by (auto split: if_splits)
    with False "1.IH" obtain x y where "x \<in> set (l2 # rest)" "y \<in> set (l2 # rest)"
      "startsWith [LETTER_P] x" "a = pad44 x" "b = pad44 y"
      by (cases "startsWith [LETTER_P] l1 \<and> 40 \<le> length l1 \<and> 40 \<le> length l2") auto
    then show ?thesis by auto
  qed
qed simp_all

lemma isMRZChar_basic: "isMRZChar FILLER" "isMRZChar LETTER_P"
  by (simp_all add: isMRZChar_def isUpperAZ_def)

lemma matchesPairHere_halves:
  assumes "matchesPairHere s"
  shows "length (take 44 s) = 44" "length (take 44 (drop 44 s)) = 44"
    "startsWith [LETTER_P] (take 44 s)"
    "list_all isMRZChar (take 44 s)" "list_all isMRZChar (take 44 (drop 44 s))"
proof -
  from assms have len: "88 \<le> length s" and p: "s ! 0 = LETTER_P"
    and snd: "isUpperAZ (s ! 1) \<or> s ! 1 = FILLER"
    and mid: "list_all isMRZChar (take 42 (drop 2 s))"
    and l2: "list_all isMRZChar (take 44 (drop 44 s))"
    by (simp_all add: matchesPairHere_def)
  from len obtain c d rest where s: "s = c # d # rest"
    by (cases s; cases "tl s") auto
  show "length (take 44 s) = 44" "length (take 44 (drop 44 s)) = 44"
    using len by simp_all
  show "startsWith [LETTER_P] (take 44 s)"
    using p s by (simp add: startsWith_def)
  have "take 44 s = c # d # take 42 rest"
    using s by simp
  moreover have "isMRZChar c" "isMRZChar d"
    using p snd s by (auto simp add: isMRZChar_def isUpperAZ_def)
  moreover have "list_all isMRZChar (take 42 rest)"
    using mid s by simp
  ultimately show "list_all isMRZChar (take 44 s)"
    by simp
  show "list_all isMRZChar (take 44 (drop 44 s))"
    by (rule l2)
qed

lemma matchContinuous_Some:
  "matchContinuous s = Some (a, b) \<Longrightarrow>
     length a = 44 \<and> length b = 44 \<and> startsWith [LETTER_P] a
     \<and> list_all isMRZChar a \<and> list_all isMRZChar b"
proof (induction s)
  case Nil
  then show ?case by simp
next
  case (Cons c cs)
  show ?case
  proof (cases "matchesPairHere (c # cs)")
    case True
    with Cons.prems have "a = take 44 (c # cs)" "b = take 44 (drop 44 (c # cs))"
      by simp_all
    with matchesPairHere_halves [OF True] show ?thesis
      by simp
  next
    case False
    with Cons show ?thesis by simp
  qed
qed

lemma locateInLines_shape:
  assumes "locateInLines ls = Some (a, b)"
  shows "length a = 44 \<and> length b = 44 \<and> startsWith [LETTER_P] a
    \<and> ((scanPairs ls = None \<or> (\<forall>l \<in> set ls. list_all isMRZChar l))
         \<longrightarrow> list_all isMRZChar a \<and> list_all isMRZChar b)"
proof (cases "scanPairs ls")
  case None
  with assms have "matchContinuous (concat ls) = Some (a, b)"
    by (simp add: locateInLines_def)
  from matchContinuous_Some [OF this] show ?thesis by simp
next
  case (Some pair)
  with assms have "scanPairs ls = Some (a, b)"
    by (simp add: locateInLines_def)
  from scanPairs_Some [OF this] obtain l1 l2 where l: "l1 \<in> set ls" "l2 \<in> set ls"
    and p: "startsWith [LETTER_P] l1" and ab: "a = pad44 l1" "b = pad44 l2"
    by blast
  have "list_all isMRZChar a \<and> list_all isMRZChar b" if "\<forall>l \<in> set ls. list_all isMRZChar l"
  proof -
    from that l have "\<forall>c \<in> set l1. isMRZChar c" "\<forall>c \<in> set l2. isMRZChar c"
      by (simp_all add: list_all_iff)
    with set_pad44 [of l1] set_pad44 [of l2] isMRZChar_basic(1) ab show ?thesis
      unfolding list_all_iff by blast
  qed
  with Some ab p show ?thesis
    by (simp add: startsWith_pad44)
qed

text \<open>
  Claim C3, as amended. For every transcript on which the locator returns a pair, both
  lines are exactly 44 long and line 1 starts with \<^verbatim>\<open>P\<close>. Every character of both lines
  is in the alphabet A-Z, 0-9, \<^verbatim>\<open><\<close> when the pair comes from the continuous fallback, or
  when every normalised line of the transcript is written in that alphabet; the
  line-pair scan itself does not look at the characters beyond the first.
\<close>

theorem extractMRZ_pair_shape:
  "extractMRZ toUpperCase text = Some (l1, l2) \<Longrightarrow>
     length l1 = 44 \<and> length l2 = 44 \<and> startsWith [LETTER_P] l1
     \<and> ((scanPairs (normalizedLines toUpperCase text) = None
          \<or> (\<forall>l \<in> set (normalizedLines toUpperCase text). list_all isMRZChar l))
         \<longrightarrow> list_all isMRZChar l1 \<and> list_all isMRZChar l2)"
  unfolding extractMRZ_def by (rule locateInLines_shape)

lemmas locator_defs = extractMRZ_def extractMRZ_App_def locateInLines_def normalizedLines_def
  normalizedLines_App_def normalizeLine_def normalizeLine_App_def replaceBrackets_def
  splitNewline_def asciiToUpperCase_def pad44_def countDigits_def matchesPairHere_def
  replicate_numeral

lemma two_pair_located:
  "extractMRZ asciiToUpperCase two_pair_transcript = Some (icao_line1, icao_line2)"
  by (simp add: two_pair_transcript_def icao_line1_def icao_line2_def locator_defs js_string_defs)

lemma split_pair_scan:
  "scanPairs (normalizedLines asciiToUpperCase split_pair_transcript) = None"
  by (simp add: split_pair_transcript_def locator_defs js_string_defs)

lemma split_pair_located:
  "extractMRZ asciiToUpperCase split_pair_transcript = Some (icao_line1, icao_line2)"
  by (simp add: split_pair_transcript_def icao_line1_def icao_line2_def locator_defs js_string_defs)

theorem extractMRZ_pair_shape_witness:
  "extractMRZ asciiToUpperCase two_pair_transcript = Some (icao_line1, icao_line2)
   \<and> extractMRZ asciiToUpperCase split_pair_transcript = Some (icao_line1, icao_line2)
   \<and> scanPairs (normalizedLines asciiToUpperCase split_pair_transcript) = None
   \<and> length icao_line1 = 44 \<and> length icao_line2 = 44 \<and> startsWith [LETTER_P] icao_line1
   \<and> list_all isMRZChar icao_line1 \<and> list_all isMRZChar icao_line2"
  using extractMRZ_pair_shape [OF two_pair_located] extractMRZ_pair_shape [OF split_pair_located]
    two_pair_located split_pair_located split_pair_scan
  by simp

text \<open>Two lines of printed text pass the line-pair scan with their punctuation.\<close>

theorem extractMRZ_pair_shape_counterexample:
  "extractMRZ asciiToUpperCase cover_page_transcript =
     Some (ustr ''PASSPORTNO./NO.DUPASSEPORT/NO.DEPASAPORTE<<<'',
           ustr ''DATEOFISSUE:12.03.2015DATEOFEXPIRY:11.03.202'')
   \<and> \<not> list_all isMRZChar (ustr ''PASSPORTNO./NO.DUPASSEPORT/NO.DEPASAPORTE<<<'')
   \<and> \<not> list_all isMRZChar (ustr ''DATEOFISSUE:12.03.2015DATEOFEXPIRY:11.03.202'')"
  by (simp add: cover_page_transcript_def locator_defs js_string_defs)

subsection \<open>The orchestrator\<close>

lemma scanPage_pass1_throws:
  "passThrows e img False \<Longrightarrow> scanPage e img w = fromPass2 e img (snd (enhancedPass e img False w))"
  by (auto simp add: passThrows_def scanPage_def enhancedPass_def recognizeAndLocate_def Let_def
      split: sum.splits)

lemma fromPass2_pass2_throws:
  "passThrows e img True \<Longrightarrow>
     fromPass2 e img w = recognizeAndLocate e img (snd (enhancedPass e img True w))"
  by (auto simp add: passThrows_def fromPass2_def enhancedPass_def recognizeAndLocate_def Let_def
      split: sum.splits)

lemma recognizeAndLocate_Inl:
  "fst (recognizeAndLocate e img w) = Inl x \<Longrightarrow> recognize e img = Inl x"
  by (auto simp add: recognizeAndLocate_def Let_def split: sum.splits)

lemma fromPass2_Inl: "fst (fromPass2 e img w) = Inl x \<Longrightarrow> recognize e img = Inl x"
  by (auto simp add: fromPass2_def Let_def split: prod.splits if_splits
      dest: recognizeAndLocate_Inl [of e img _ x])

lemma scanPage_Inl: "fst (scanPage e img w) = Inl x \<Longrightarrow> recognize e img = Inl x"
  by (auto simp add: scanPage_def Let_def split: prod.splits if_splits dest: fromPass2_Inl)

lemma scanPages_append_throw:
  "scanPages e before w0 = (Inr None, w) \<Longrightarrow> fst (scanPage e img w) = Inl x \<Longrightarrow>
     scanPages e (before @ img # rest) w0 = (Inl x, snd (scanPage e img w))"
proof (induction before arbitrary: w0)
  case Nil
  then show ?case by (cases "scanPage e img w") auto
next
  case (Cons p ps)
  then show ?case
    by (cases "scanPage e p w0") (auto split: sum.splits option.splits)
qed

lemma extractData_throw:
  "scanPages e before \<lparr>workers = 1, recognized = [], terminated = 0\<rparr> = (Inr None, w) \<Longrightarrow>
   fst (scanPage e img w) = Inl x \<Longrightarrow>
     extractData e (before @ img # rest) = (ShowsError (errorText x), snd (scanPage e img w))"
  by (simp add: extractData_def scanPages_append_throw)

text \<open>
  Inside a page, a failure of pass 1 or of pass 2 (in preprocessing or in the OCR call) is
  swallowed and the next pass on the same page follows; the only error that leaves a page
  is that of the OCR call of pass 3 on the original image.
\<close>

lemma passes_1_2_swallowed:
  "(passThrows e img False \<longrightarrow>
      scanPage e img w = fromPass2 e img (snd (enhancedPass e img False w)))
   \<and> (passThrows e img True \<longrightarrow>
      fromPass2 e img w = recognizeAndLocate e img (snd (enhancedPass e img True w)))
   \<and> (fst (scanPage e img w) = Inl x \<longrightarrow> recognize e img = Inl x)"
  by (simp add: scanPage_pass1_throws fromPass2_pass2_throws scanPage_Inl)

lemmas orchestrator_defs = extractData_def scanPage_def fromPass2_def enhancedPass_def
  recognizeAndLocate_def passThrows_def

lemma page_names: "page1 \<noteq> page2" "page1 \<noteq> cropped1" "page2 \<noteq> cropped1"
  by (simp_all add: page1_def page2_def cropped1_def js_string_defs)

lemma corrupt_scan:
  "scanPage corrupt_env page1 w =
     (Inl (JsError (ustr ''Error attempting to read image.'')), w\<lparr>recognized := recognized w @ [page1]\<rparr>)"
  by (simp add: corrupt_env_def orchestrator_defs)

text \<open>Passes 1 and 2 throw on a page, pass 3 reads it: the run succeeds.\<close>

lemma retry_throws: "passThrows retry_env page1 False" "passThrows retry_env page1 True"
  using page_names by (simp_all add: retry_env_def passThrows_def)

lemma retry_run:
  "extractData retry_env [page1] =
     (ShowsData (parseMRZ 2026 (icao_line1, icao_line2)),
      \<lparr>workers = 1, recognized = [cropped1, page1], terminated = 1\<rparr>)"
  using page_names by (simp add: retry_env_def orchestrator_defs two_pair_located)

lemma corrupt_run_two_pages:
  "extractData corrupt_env [page1, page2] =
     (ShowsError (ustr ''Error attempting to read image.''),
      \<lparr>workers = 1, recognized = [page1], terminated = 0\<rparr>)"
  by (simp add: extractData_def corrupt_scan js_string_defs)

lemma corrupt_run_second_page:
  "extractData corrupt_env [page2] =
     (ShowsData (parseMRZ 2026 (icao_line1, icao_line2)),
      \<lparr>workers = 1, recognized = [page2], terminated = 1\<rparr>)"
  using page_names by (simp add: corrupt_env_def orchestrator_defs two_pair_located)

text \<open>
  Claim C7 asks that a failure of pass 3 go no further than the next page and not fail the
  run. Passes 1 and 2 do swallow their failures, but the OCR call of pass 3 stands outside
  any \<^verbatim>\<open>try\<close> of the page loop: when it throws on the first of two pages, the run fails as
  a whole with that error, and the second page, which holds the specimen and on its own
  yields its record, is never handed to the engine.
\<close>

theorem extractData_pass3_failure_fails_run:
  "fst (extractData corrupt_env [page1, page2]) = ShowsError (ustr ''Error attempting to read image.'')
   \<and> recognized (snd (extractData corrupt_env [page1, page2])) = [page1]
   \<and> fst (extractData corrupt_env [page2]) = ShowsData (parseMRZ 2026 (icao_line1, icao_line2))"
  by (simp add: corrupt_run_two_pages corrupt_run_second_page)

lemma scanPage_keeps: 
  "workers (snd (scanPage e img w)) = workers w \<and> terminated (snd (scanPage e img w)) = terminated w"
  by (auto simp add: orchestrator_defs Let_def split: sum.splits prod.splits option.splits)

lemma scanPages_keeps:
  "workers (snd (scanPages e imgs w)) = workers w \<and> terminated (snd (scanPages e imgs w)) = terminated w"
proof (induction imgs arbitrary: w)
  case Nil
  show ?case by simp
next
  case (Cons img rest)
  obtain r w' where sp: "scanPage e img w = (r, w')"
    by (cases "scanPage e img w")
  with scanPage_keeps [of e img w] have keep: "workers w' = workers w" "terminated w' = terminated w"
    by simp_all
  show ?case
    using sp keep Cons.IH [of w'] by (auto split: sum.splits option.splits)
qed

lemma extractData_terminates_unless_thrown:
  "fst (scanPages e imgs \<lparr>workers = 1, recognized = [], terminated = 0\<rparr>) = Inr found \<Longrightarrow>
     workers (snd (extractData e imgs)) = 1 \<and> terminated (snd (extractData e imgs)) = 1"
  using scanPages_keeps [of e imgs "\<lparr>workers = 1, recognized = [], terminated = 0\<rparr>"]
  by (cases "scanPages e imgs \<lparr>workers = 1, recognized = [], terminated = 0\<rparr>")
     (auto simp add: extractData_def Let_def split: option.splits)

text \<open>
  Claim C8 asks that the worker be terminated exactly once on every path. It is on every
  path on which the page loop ends without a throw (the lemma above); when the OCR call of
  pass 3 throws, \<^verbatim>\<open>worker.terminate()\<close> is skipped and the run ends with the worker alive.
\<close>

theorem extractData_worker_not_released:
  "snd (extractData corrupt_env [page1]) = \<lparr>workers = 1, recognized = [page1], terminated = 0\<rparr>
   \<and> terminated (snd (extractData corrupt_env [page1])) \<noteq> 1"
  by (simp add: extractData_def corrupt_scan)

subsection \<open>Otsu's threshold\<close>

lemma weightUpTo_below: "weightUpTo h t = weightBelow h (Suc t)"
  by (simp add: weightUpTo_def weightBelow_def)

lemma sumUpTo_below: "sumUpTo h t = sumBelow h (Suc t)"
  by (simp add: sumUpTo_def sumBelow_def)

lemma weightBelow_Suc: "weightBelow h (Suc k) = weightBelow h k + int (h ! k)"
  by (simp add: weightBelow_def)

lemma sumBelow_Suc: "sumBelow h (Suc k) = sumBelow h k + int k * int (h ! k)"
  by (simp add: sumBelow_def)

lemma weightBelow_nonneg: "0 \<le> weightBelow h k"
  by (induction k) (simp_all add: weightBelow_Suc, simp add: weightBelow_def)

lemma weightBelow_mono: "j \<le> k \<Longrightarrow> weightBelow h j \<le> weightBelow h k"
  by (induction k) (auto simp add: weightBelow_Suc le_Suc_eq)

text \<open>One turn of the loop, when the accumulators hold the sums below \<open>k\<close>.\<close>

lemma otsuScan_step:
  "otsuScan ops h T A (k # ts) (sumBelow h k) (weightBelow h k) M B =
     (if weightUpTo h k = 0 then otsuScan ops h T A ts (sumBelow h (Suc k)) (weightBelow h (Suc k)) M B
      else if T - weightUpTo h k = 0 then B
      else if betweenVariance ops h T A k > M
        then otsuScan ops h T A ts (sumBelow h (Suc k)) (weightBelow h (Suc k)) (betweenVariance ops h T A k) k
        else otsuScan ops h T A ts (sumBelow h (Suc k)) (weightBelow h (Suc k)) M B)"
proof (cases "weightUpTo h k = 0")
  case True
  then have "weightBelow h k + int (h ! k) = 0"
    by (simp add: weightUpTo_below weightBelow_Suc)
  with weightBelow_nonneg [of h k] have "h ! k = 0"
    by simp
  then have "sumBelow h (Suc k) = sumBelow h k"
    by (simp add: sumBelow_Suc)
  with True show ?thesis
    by (simp add: weightUpTo_below weightBelow_Suc Let_def)
next
  case False
  then show ?thesis
    by (simp add: weightUpTo_below sumUpTo_below weightBelow_Suc sumBelow_Suc Let_def
        betweenVariance_def)
qed

lemma lowestBest_stop:
  "(\<forall>t. k \<le> t \<and> t < n \<longrightarrow> \<not> splits h T t) \<Longrightarrow> lowestBest ops h T A k n M B B"
  unfolding lowestBest_def by blast

lemma lowestBest_skip:
  assumes "\<not> splits h T k" and "lowestBest ops h T A (Suc k) n M B r"
  shows "lowestBest ops h T A k n M B r"
proof -
  have range: "Suc k \<le> t" if "k \<le> t" "splits h T t" for t
    using that assms(1) by (cases "t = k") auto
  from assms(2) show ?thesis
    unfolding lowestBest_def
  proof (elim disjE conjE)
    assume "r = B" "\<forall>t. Suc k \<le> t \<and> t < n \<and> splits h T t \<longrightarrow> betweenVariance ops h T A t \<le> M"
    then show "(r = B \<and> (\<forall>t. k \<le> t \<and> t < n \<and> splits h T t \<longrightarrow> betweenVariance ops h T A t \<le> M))
      \<or> (k \<le> r \<and> r < n \<and> splits h T r \<and> M < betweenVariance ops h T A r
        \<and> (\<forall>t. k \<le> t \<and> t < n \<and> splits h T t \<longrightarrow> betweenVariance ops h T A t \<le> betweenVariance ops h T A r)
        \<and> (\<forall>t. k \<le> t \<and> t < r \<and> splits h T t \<longrightarrow> betweenVariance ops h T A t < betweenVariance ops h T A r))"
      using range by blast
  next
    assume "Suc k \<le> r" "r < n" "splits h T r" "M < betweenVariance ops h T A r"
      "\<forall>t. Suc k \<le> t \<and> t < n \<and> splits h T t \<longrightarrow> betweenVariance ops h T A t \<le> betweenVariance ops h T A r"
      "\<forall>t. Suc k \<le> t \<and> t < r \<and> splits h T t \<longrightarrow> betweenVariance ops h T A t < betweenVariance ops h T A r"
    moreover from \<open>Suc k \<le> r\<close> have "k \<le> r" by simp
    ultimately show "(r = B \<and> (\<forall>t. k \<le> t \<and> t < n \<and> splits h T t \<longrightarrow> betweenVariance ops h T A t \<le> M))
      \<or> (k \<le> r \<and> r < n \<and> splits h T r \<and> M < betweenVariance ops h T A r
        \<and> (\<forall>t. k \<le> t \<and> t < n \<and> splits h T t \<longrightarrow> betweenVariance ops h T A t \<le> betweenVariance ops h T A r)
        \<and> (\<forall>t. k \<le> t \<and> t < r \<and> splits h T t \<longrightarrow> betweenVariance ops h T A t < betweenVariance ops h T A r))"
      using range by blast
  qed
qed

lemma lowestBest_keep:
  assumes "betweenVariance ops h T A k \<le> M" and "lowestBest ops h T A (Suc k) n M B r"
  shows "lowestBest ops h T A k n M B r"
proof -
  have range: "t = k \<or> Suc k \<le> t" if "k \<le> t" for t
    using that by auto
  from assms(2) show ?thesis
    unfolding lowestBest_def
  proof (elim disjE conjE)
    assume a: "r = B" "\<forall>t. Suc k \<le> t \<and> t < n \<and> splits h T t \<longrightarrow> betweenVariance ops h T A t \<le> M"
    have "betweenVariance ops h T A t \<le> M" if "k \<le> t" "t < n" "splits h T t" for t
      using range [OF that(1)] a(2) that assms(1) by auto
    with a(1) show "(r = B \<and> (\<forall>t. k \<le> t \<and> t < n \<and> splits h T t \<longrightarrow> betweenVariance ops h T A t \<le> M))
      \<or> (k \<le> r \<and> r < n \<and> splits h T r \<and> M < betweenVariance ops h T A r
        \<and> (\<forall>t. k \<le> t \<and> t < n \<and> splits h T t \<longrightarrow> betweenVariance ops h T A t \<le> betweenVariance ops h T A r)
        \<and> (\<forall>t. k \<le> t \<and> t < r \<and> splits h T t \<longrightarrow> betweenVariance ops h T A t < betweenVariance ops h T A r))"
      by blast
  next
    assume b: "Suc k \<le> r" "r < n" "splits h T r" "M < betweenVariance ops h T A r"
      "\<forall>t. Suc k \<le> t \<and> t < n \<and> splits h T t \<longrightarrow> betweenVariance ops h T A t \<le> betweenVariance ops h T A r"
      "\<forall>t. Suc k \<le> t \<and> t < r \<and> splits h T t \<longrightarrow> betweenVariance ops h T A t < betweenVariance ops h T A r"
    have lt: "betweenVariance ops h T A k < betweenVariance ops h T A r"
      using assms(1) b(4) by simp
    have all: "betweenVariance ops h T A t \<le> betweenVariance ops h T A r" if "k \<le> t" "t < n" "splits h T t" for t
      using range [OF that(1)] b(5) that lt by auto
    have below: "betweenVariance ops h T A t < betweenVariance ops h T A r" if "k \<le> t" "t < r" "splits h T t" for t
      using range [OF that(1)] b(6) that lt by auto
    from b(1) have "k \<le> r" by simp
    with b(2,3,4) all below
    show "(r = B \<and> (\<forall>t. k \<le> t \<and> t < n \<and> splits h T t \<longrightarrow> betweenVariance ops h T A t \<le> M))
      \<or> (k \<le> r \<and> r < n \<and> splits h T r \<and> M < betweenVariance ops h T A r
        \<and> (\<forall>t. k \<le> t \<and> t < n \<and> splits h T t \<longrightarrow> betweenVariance ops h T A t \<le> betweenVariance ops h T A r)
        \<and> (\<forall>t. k \<le> t \<and> t < r \<and> splits h T t \<longrightarrow> betweenVariance ops h T A t < betweenVariance ops h T A r))"
      by blast
  qed
qed

lemma lowestBest_take:
  assumes "splits h T k" and "M < betweenVariance ops h T A k" and "k < n"
    and "lowestBest ops h T A (Suc k) n (betweenVariance ops h T A k) k r"
  shows "lowestBest ops h T A k n M B r"
proof -
  have range: "t = k \<or> Suc k \<le> t" if "k \<le> t" for t
    using that by auto
  from assms(4) show ?thesis
    unfolding lowestBest_def
  proof (elim disjE conjE)
    assume a: "r = k"
      "\<forall>t. Suc k \<le> t \<and> t < n \<and> splits h T t \<longrightarrow> betweenVariance ops h T A t \<le> betweenVariance ops h T A k"
    have all: "betweenVariance ops h T A t \<le> betweenVariance ops h T A r" if "k \<le> t" "t < n" "splits h T t" for t
      using range [OF that(1)] a that by auto
    have below: "betweenVariance ops h T A t < betweenVariance ops h T A r" if "k \<le> t" "t < r" "splits h T t" for t
      using that a(1) by simp
    have "k \<le> r \<and> r < n \<and> splits h T r \<and> M < betweenVariance ops h T A r"
      using a(1) assms(1,2,3) by simp
    with all below
    show "(r = B \<and> (\<forall>t. k \<le> t \<and> t < n \<and> splits h T t \<longrightarrow> betweenVariance ops h T A t \<le> M))
      \<or> (k \<le> r \<and> r < n \<and> splits h T r \<and> M < betweenVariance ops h T A r
        \<and> (\<forall>t. k \<le> t \<and> t < n \<and> splits h T t \<longrightarrow> betweenVariance ops h T A t \<le> betweenVariance ops h T A r)
        \<and> (\<forall>t. k \<le> t \<and> t < r \<and> splits h T t \<longrightarrow> betweenVariance ops h T A t < betweenVariance ops h T A r))"
      by blast
  next
    assume b: "Suc k \<le> r" "r < n" "splits h T r" "betweenVariance ops h T A k < betweenVariance ops h T A r"
      "\<forall>t. Suc k \<le> t \<and> t < n \<and> splits h T t \<longrightarrow> betweenVariance ops h T A t \<le> betweenVariance ops h T A r"
      "\<forall>t. Suc k \<le> t \<and> t < r \<and> splits h T t \<longrightarrow> betweenVariance ops h T A t < betweenVariance ops h T A r"
    have all: "betweenVariance ops h T A t \<le> betweenVariance ops h T A r" if "k \<le> t" "t < n" "splits h T t" for t
      using range [OF that(1)] b(4,5) that by auto
    have below: "betweenVariance ops h T A t < betweenVariance ops h T A r" if "k \<le> t" "t < r" "splits h T t" for t
      using range [OF that(1)] b(4,6) that by auto
    have "k \<le> r \<and> r < n \<and> splits h T r \<and> M < betweenVariance ops h T A r"
      using b(1,2,3,4) assms(2) by simp
    with all below
    show "(r = B \<and> (\<forall>t. k \<le> t \<and> t < n \<and> splits h T t \<longrightarrow> betweenVariance ops h T A t \<le> M))
      \<or> (k \<le> r \<and> r < n \<and> splits h T r \<and> M < betweenVariance ops h T A r
        \<and> (\<forall>t. k \<le> t \<and> t < n \<and> splits h T t \<longrightarrow> betweenVariance ops h T A t \<le> betweenVariance ops h T A r)
        \<and> (\<forall>t. k \<le> t \<and> t < r \<and> splits h T t \<longrightarrow> betweenVariance ops h T A t < betweenVariance ops h T A r))"
      by blast
  qed
qed

lemma otsuScan_lowestBest:
  assumes bounded: "\<forall>t < n. weightUpTo h t \<le> T"
  shows "k \<le> n \<Longrightarrow>
    lowestBest ops h T A k n M B (otsuScan ops h T A [k..<n] (sumBelow h k) (weightBelow h k) M B)"
proof (induction "n - k" arbitrary: k M B)
  case 0
  then have "[k..<n] = []" by simp
  with 0 show ?case by (simp add: lowestBest_def)
next
  case (Suc d)
  then have kn: "k < n" and d: "d = n - Suc k" and le: "Suc k \<le> n"
    by simp_all
  have upt: "[k..<n] = k # [Suc k..<n]"
    using kn by (simp add: upt_conv_Cons)
  note step = otsuScan_step [of ops h T A k "[Suc k..<n]" M B]
  note IH = Suc.hyps(1) [OF d le]
  show ?case
  proof (cases "weightUpTo h k = 0")
    case True
    then have "\<not> splits h T k"
      by (simp add: splits_def)
    from lowestBest_skip [OF this IH [of M B]] show ?thesis
      unfolding upt step using True by simp
  next
    case nonzero: False
    show ?thesis
    proof (cases "T - weightUpTo h k = 0")
      case True
      have "\<not> splits h T t" if "k \<le> t \<and> t < n" for t
      proof -
        have "weightUpTo h k \<le> weightUpTo h t"
          using that by (simp add: weightUpTo_below weightBelow_mono)
        moreover have "weightUpTo h t \<le> T"
          using bounded that by simp
        ultimately show ?thesis
          using True by (simp add: splits_def)
      qed
      then have "lowestBest ops h T A k n M B B"
        by (intro lowestBest_stop) blast
      then show ?thesis
        unfolding upt step using nonzero True by simp
    next
      case False
      with nonzero have split: "splits h T k"
        by (simp add: splits_def)
      show ?thesis
      proof (cases "betweenVariance ops h T A k > M")
        case True
        from lowestBest_take [OF split True kn IH [of "betweenVariance ops h T A k" k]] show ?thesis
          unfolding upt step using nonzero False True by simp
      next
        case notgreater: False
        then have "betweenVariance ops h T A k \<le> M" by simp
        from lowestBest_keep [OF this IH [of M B]] show ?thesis
          unfolding upt step using nonzero False notgreater by simp
      qed
    qed
  qed
qed

lemma histogram_fold:
  "length h = 256 \<Longrightarrow>
     length (foldl (\<lambda>histogram v. if v < 256 then histogram[v := histogram ! v + 1] else histogram) h vs) = 256
     \<and> (\<forall>t < 256. foldl (\<lambda>histogram v. if v < 256 then histogram[v := histogram ! v + 1] else histogram) h vs ! t
          = h ! t + count_list vs t)"
proof (induction vs arbitrary: h)
  case Nil
  then show ?case by simp
next
  case (Cons v vs)
  let ?h = "if v < 256 then h[v := h ! v + 1] else h"
  have len: "length ?h = 256"
    using Cons.prems by simp
  have nth: "?h ! t = h ! t + (if v = t then 1 else 0)" if "t < 256" for t
    using that Cons.prems by (auto simp add: nth_list_update)
  from Cons.IH [OF len] nth show ?case
    by auto
qed

lemma length_histogramOf: "length (histogramOf vs) = 256"
  using histogram_fold [of "replicate 256 0" vs] by (simp add: histogramOf_def)

lemma nth_histogramOf: "t < 256 \<Longrightarrow> histogramOf vs ! t = count_list vs t"
  using histogram_fold [of "replicate 256 0" vs] by (simp add: histogramOf_def)

lemma histogramOf_eqI:
  "(\<And>t. t < 256 \<Longrightarrow> count_list vs t = count_list ws t) \<Longrightarrow> histogramOf vs = histogramOf ws"
  by (rule nth_equalityI) (simp_all add: length_histogramOf nth_histogramOf)

lemma length_filter_less_Suc:
  "length (filter (\<lambda>v. v < Suc k) vs) = length (filter (\<lambda>v. v < k) vs) + count_list vs k"
  by (induction vs) (auto simp add: less_Suc_eq)

lemma sum_filter_less_Suc:
  "sum_list (filter (\<lambda>v. v < Suc k) vs) = sum_list (filter (\<lambda>v. v < k) vs) + k * count_list vs k"
  by (induction vs) (auto simp add: less_Suc_eq)

lemma weightBelow_histogramOf:
  "k \<le> 256 \<Longrightarrow> weightBelow (histogramOf vs) k = int (length (filter (\<lambda>v. v < k) vs))"
proof (induction k)
  case 0
  show ?case by (simp add: weightBelow_def)
next
  case (Suc k)
  then show ?case
    by (simp add: weightBelow_Suc nth_histogramOf length_filter_less_Suc)
qed

lemma sumBelow_histogramOf:
  "k \<le> 256 \<Longrightarrow> sumBelow (histogramOf vs) k = int (sum_list (filter (\<lambda>v. v < k) vs))"
proof (induction k)
  case 0
  show ?case by (simp add: sumBelow_def)
next
  case (Suc k)
  then show ?case
    by (simp add: sumBelow_Suc nth_histogramOf sum_filter_less_Suc)
qed

lemma weightUpTo_histogramOf:
  "t < 256 \<Longrightarrow> weightUpTo (histogramOf vs) t = int (length (filter (\<lambda>v. v \<le> t) vs))"
  by (simp add: weightUpTo_below weightBelow_histogramOf less_Suc_eq_le)

lemma sumUpTo_histogramOf:
  "t < 256 \<Longrightarrow> sumUpTo (histogramOf vs) t = int (sum_list (filter (\<lambda>v. v \<le> t) vs))"
  by (simp add: sumUpTo_below sumBelow_histogramOf less_Suc_eq_le)

lemma sumAllOf_histogramOf:
  "sumAllOf (histogramOf vs) = int (sum_list (filter (\<lambda>v. v < 256) vs))"
  using sumBelow_histogramOf [of 256 vs] by (simp add: sumAllOf_def sumBelow_def)

lemma length_from_histogram:
  "\<forall>v \<in> set vs. v < 256 \<Longrightarrow> int (length vs) = weightBelow (histogramOf vs) 256"
  by (simp add: weightBelow_histogramOf)

lemma otsuThreshold_lowestBest:
  "lowestBest ops (histogramOf vs) (int (length vs)) (sumAllOf (histogramOf vs)) 0 256 0 128
     (otsuThreshold ops vs)"
proof -
  have "\<forall>t < 256. weightUpTo (histogramOf vs) t \<le> int (length vs)"
    by (simp add: weightUpTo_histogramOf)
  from otsuScan_lowestBest [OF this, of 0 ops "sumAllOf (histogramOf vs)" 0 128] show ?thesis
    by (simp add: otsuThreshold_def Let_def sumBelow_def weightBelow_def)
qed

lemma otsuThreshold_histogram:
  assumes "\<forall>v \<in> set vs. v < 256" "\<forall>v \<in> set ws. v < 256" "histogramOf vs = histogramOf ws"
  shows "otsuThreshold ops vs = otsuThreshold ops ws"
proof -
  have "int (length vs) = int (length ws)"
    using assms by (simp add: length_from_histogram)
  with assms(3) show ?thesis
    by (simp add: otsuThreshold_def)
qed

lemma otsuThreshold_single:
  assumes "set vs \<subseteq> {v}"
  shows "otsuThreshold ops vs = 128"
proof -
  have "\<not> splits (histogramOf vs) (int (length vs)) t" if "t < 256" for t
  proof (cases "v \<le> t")
    case True
    with assms have "filter (\<lambda>x. x \<le> t) vs = vs"
      by (auto simp add: filter_id_conv)
    with that show ?thesis
      by (simp add: splits_def weightUpTo_histogramOf)
  next
    case False
    with assms have "filter (\<lambda>x. x \<le> t) vs = []"
      by (auto simp add: filter_empty_conv)
    with that show ?thesis
      by (simp add: splits_def weightUpTo_histogramOf)
  qed
  with otsuThreshold_lowestBest [of ops vs] show ?thesis
    unfolding lowestBest_def by blast
qed

lemma length_filter_eq: "length (filter (\<lambda>v. v = a) vs) = count_list vs a"
  by (induction vs) auto

lemma sum_filter_eq: "sum_list (filter (\<lambda>v. v = a) vs) = a * count_list vs a"
  by (induction vs) auto

lemma two_values_length:
  "set vs \<subseteq> {a, b} \<Longrightarrow> a \<noteq> b \<Longrightarrow> length vs = count_list vs a + count_list vs b"
  by (induction vs) auto

lemma two_values_sum:
  "set vs \<subseteq> {a, b} \<Longrightarrow> a \<noteq> b \<Longrightarrow> sum_list vs = a * count_list vs a + b * count_list vs b"
  by (induction vs) auto

lemma meanOf_cluster: "a \<in> set vs \<Longrightarrow> meanOf (filter (\<lambda>v. v = a) vs) = real a"
proof -
  assume "a \<in> set vs"
  then have "count_list vs a \<noteq> 0"
    by (simp add: count_list_0_iff)
  then show ?thesis
    by (simp add: meanOf_def length_filter_eq sum_filter_eq)
qed

lemma exactArith_exactOnGreyValues: "exactOnGreyValues exactArith"
proof -
  have "1 \<le> x * y" if "1 \<le> x" "1 \<le> y" for x y :: real
    using that mult_mono [of 1 x 1 y] by simp
  moreover have "1 \<le> x\<^sup>2" if "1 \<le> \<bar>x\<bar>" for x :: real
    using that by (metis one_le_power power2_abs)
  ultimately show ?thesis
    by (simp add: exactOnGreyValues_def exactArith_def)
qed

text \<open>
  Two grey values \<open>a < b\<close>: every threshold from \<open>a\<close> to \<open>b - 1\<close> splits the pixels in the
  same way, the host computes the same positive variance for each, and the first is kept.
\<close>

lemma otsuThreshold_two_values:
  assumes ops: "exactOnGreyValues ops"
    and set: "set vs = {a, b}" and ab: "a < b" and b: "b < 256"
  shows "otsuThreshold ops vs = a"
proof -
  define h where "h = histogramOf vs"
  define T where "T = int (length vs)"
  define A where "A = sumAllOf h"
  define na where "na = count_list vs a"
  define nb where "nb = count_list vs b"
  have "count_list vs a \<noteq> 0" "count_list vs b \<noteq> 0"
    using set by (simp_all add: count_list_0_iff)
  then have na: "0 < na" and nb: "0 < nb"
    by (simp_all add: na_def nb_def)
  have sub: "set vs \<subseteq> {a, b}" and ne: "a \<noteq> b"
    using set ab by auto
  have T: "T = int na + int nb"
    using two_values_length [OF sub ne] by (simp add: T_def na_def nb_def)
  have "filter (\<lambda>v. v < 256) vs = vs"
    using set ab b by (auto simp add: filter_id_conv)
  then have A: "A = int a * int na + int b * int nb"
    using two_values_sum [OF sub ne] by (simp add: A_def h_def sumAllOf_histogramOf na_def nb_def)
  have low: "weightUpTo h t = 0" if "t < a" for t
  proof -
    have "filter (\<lambda>v. v \<le> t) vs = []"
      using set ab that by (auto simp add: filter_empty_conv)
    then show ?thesis
      using that ab b by (simp add: h_def weightUpTo_histogramOf)
  qed
  have high: "weightUpTo h t = T" if "b \<le> t" "t < 256" for t
  proof -
    have "filter (\<lambda>v. v \<le> t) vs = vs"
      using set ab that by (auto simp add: filter_id_conv)
    then show ?thesis
      using that by (simp add: h_def T_def weightUpTo_histogramOf)
  qed
  have mid: "weightUpTo h t = int na \<and> sumUpTo h t = int a * int na" if "a \<le> t" "t < b" for t
  proof -
    have "filter (\<lambda>v. v \<le> t) vs = filter (\<lambda>v. v = a) vs"
      using set ab that by (intro filter_cong) auto
    then show ?thesis
      using that b by (simp add: h_def weightUpTo_histogramOf sumUpTo_histogramOf
          length_filter_eq sum_filter_eq na_def)
  qed
  define V where "V = numMul ops (numMul ops (real na) (real nb))
      (numSquare ops (real a - real b))"
  have "numDiv ops (real (a * na)) (real na) = real a"
    and "numDiv ops (real (b * nb)) (real nb) = real b"
    and diff: "numSub ops (real a) (real b) = real a - real b"
    using ops ab b na nb unfolding exactOnGreyValues_def by simp_all
  then have meanBg: "numDiv ops (real a * real na) (real na) = real a"
    and meanFg: "numDiv ops (real b * real nb) (real nb) = real b"
    by simp_all
  have var: "betweenVariance ops h T A t = V" if "a \<le> t" "t < b" for t
  proof -
    have "real_of_int (int a * int na) = real (a * na)"
      "real_of_int (A - int a * int na) = real (b * nb)"
      "real_of_int (int na) = real na" "real_of_int (T - int na) = real nb"
      by (simp_all add: A T)
    then show ?thesis
      using mid [OF that] by (simp add: betweenVariance_def Let_def V_def meanBg meanFg diff)
  qed
  have pos: "0 < V"
  proof -
    have "1 \<le> numMul ops (real na) (real nb)"
      using ops na nb by (simp add: exactOnGreyValues_def)
    moreover have "1 \<le> \<bar>real a - real b\<bar>"
      using ab by simp
    then have "1 \<le> numSquare ops (real a - real b)"
      using ops by (simp add: exactOnGreyValues_def)
    ultimately have "1 \<le> V"
      using ops unfolding V_def by (simp add: exactOnGreyValues_def)
    then show ?thesis by simp
  qed
  have splits_iff: "splits h T t \<longleftrightarrow> a \<le> t \<and> t < b" if "t < 256" for t
  proof (cases "t < a")
    case True
    with low [OF this] show ?thesis by (simp add: splits_def)
  next
    case False
    show ?thesis
    proof (cases "t < b")
      case True
      with False mid [of t] na nb show ?thesis
        by (simp add: splits_def T)
    next
      case nb: False
      with high [of t] that show ?thesis
        by (simp add: splits_def)
    qed
  qed
  define r where "r = otsuThreshold ops vs"
  have best: "lowestBest ops h T A 0 256 0 128 r"
    unfolding h_def T_def A_def r_def by (rule otsuThreshold_lowestBest)
  have a_split: "splits h T a" "a < 256"
    using splits_iff [of a] ab b by simp_all
  have "\<not> (\<forall>t. 0 \<le> t \<and> t < 256 \<and> splits h T t \<longrightarrow> betweenVariance ops h T A t \<le> 0)"
    using a_split var [of a] pos ab by (auto intro!: exI [of _ a])
  with best have r: "r < 256" "splits h T r"
    and below: "\<forall>t. 0 \<le> t \<and> t < r \<and> splits h T t \<longrightarrow>
      betweenVariance ops h T A t < betweenVariance ops h T A r"
    unfolding lowestBest_def by blast+
  from r splits_iff [of r] have range: "a \<le> r" "r < b"
    by simp_all
  have "r = a"
  proof (rule ccontr)
    assume "r \<noteq> a"
    with range have "a < r" by simp
    with below a_split have "betweenVariance ops h T A a < betweenVariance ops h T A r"
      by simp
    with var [of a] var [of r] range ab show False
      by simp
  qed
  then show ?thesis
    by (simp add: r_def)
qed

text \<open>
  Four pixels 0, 1, 1, 2: the splits at 0 and at 1 have the same variance 16/3, and the
  result follows what the host computes for them. Without rounding the two are equal and
  the threshold is 0; when the value computed at 1 is the larger, as it is in doubles
  (5.333333333333334 against 5.333333333333333), the threshold is 1.
\<close>

lemma otsuThreshold_0112:
  defines "h \<equiv> histogramOf [0, 1, 1, 2]"
  shows "otsuThreshold exactArith [0, 1, 1, 2] = 0"
    and "0 < betweenVariance ops h 4 4 1 \<Longrightarrow>
         betweenVariance ops h 4 4 0 < betweenVariance ops h 4 4 1 \<Longrightarrow>
         otsuThreshold ops [0, 1, 1, 2] = 1"
proof -
  have w0: "weightUpTo h 0 = 1" and w1: "weightUpTo h 1 = 3"
    and s0: "sumUpTo h 0 = 0" and s1: "sumUpTo h 1 = 2"
    by (simp_all add: h_def weightUpTo_histogramOf sumUpTo_histogramOf)
  have w2: "weightUpTo h t = 4" if "2 \<le> t" "t < 256" for t
  proof -
    have "filter (\<lambda>v. v \<le> t) [0, 1, 1, 2] = [0, 1, 1, 2]"
      using that by simp
    with that show ?thesis
      by (simp add: h_def weightUpTo_histogramOf)
  qed
  have A: "sumAllOf h = 4"
    by (simp add: h_def sumAllOf_histogramOf)
  have splits_iff: "splits h 4 t \<longleftrightarrow> t = 0 \<or> t = 1" if "t < 256" for t
  proof -
    consider "t = 0" | "t = 1" | "2 \<le> t" by linarith
    then show ?thesis
      using w0 w1 w2 [of t] that by cases (simp_all add: splits_def)
  qed
  have len: "int (length [0, 1, 1, 2::nat]) = 4"
    by simp
  have best: "lowestBest ops' h 4 4 0 256 0 128 (otsuThreshold ops' [0, 1, 1, 2])" for ops'
    using otsuThreshold_lowestBest [of ops' "[0, 1, 1, 2]"]
    unfolding len h_def [symmetric] A .
  have v0: "betweenVariance exactArith h 4 4 0 = 16 / 3"
    and v1: "betweenVariance exactArith h 4 4 1 = 16 / 3"
    unfolding betweenVariance_def Let_def w0 w1 s0 s1
    by (simp_all add: exactArith_def power2_eq_square)
  show "otsuThreshold exactArith [0, 1, 1, 2] = 0"
  proof -
    define r where "r = otsuThreshold exactArith [0, 1, 1, 2]"
    have "splits h 4 0"
      using splits_iff [of 0] by simp
    then have "\<not> (\<forall>t. 0 \<le> t \<and> t < 256 \<and> splits h 4 t \<longrightarrow>
        betweenVariance exactArith h 4 4 t \<le> 0)"
      using v0 by (auto intro!: exI [of _ 0])
    with best [of exactArith] have r: "r < 256" "splits h 4 r"
      and below: "\<forall>t. 0 \<le> t \<and> t < r \<and> splits h 4 t \<longrightarrow>
        betweenVariance exactArith h 4 4 t < betweenVariance exactArith h 4 4 r"
      unfolding lowestBest_def r_def [symmetric] by blast+
    from r splits_iff [of r] have "r = 0 \<or> r = 1" by simp
    moreover have "r \<noteq> 1"
    proof
      assume "r = 1"
      with below \<open>splits h 4 0\<close> have "betweenVariance exactArith h 4 4 0 < betweenVariance exactArith h 4 4 1"
        by simp
      with v0 v1 show False by simp
    qed
    ultimately show ?thesis by (simp add: r_def)
  qed
  show "otsuThreshold ops [0, 1, 1, 2] = 1"
    if pos: "0 < betweenVariance ops h 4 4 1"
      and gt: "betweenVariance ops h 4 4 0 < betweenVariance ops h 4 4 1"
  proof -
    define r where "r = otsuThreshold ops [0, 1, 1, 2]"
    have s: "splits h 4 0" "splits h 4 1"
      using splits_iff [of 0] splits_iff [of 1] by simp_all
    have "\<not> (\<forall>t. 0 \<le> t \<and> t < 256 \<and> splits h 4 t \<longrightarrow> betweenVariance ops h 4 4 t \<le> 0)"
      using s(2) pos by (auto intro!: exI [of _ 1])
    with best [of ops] have r: "r < 256" "splits h 4 r"
      and all: "\<forall>t. 0 \<le> t \<and> t < 256 \<and> splits h 4 t \<longrightarrow>
        betweenVariance ops h 4 4 t \<le> betweenVariance ops h 4 4 r"
      unfolding lowestBest_def r_def [symmetric] by blast+
    from r splits_iff [of r] have "r = 0 \<or> r = 1" by simp
    moreover have "r \<noteq> 0"
    proof
      assume "r = 0"
      with all s(2) have "betweenVariance ops h 4 4 1 \<le> betweenVariance ops h 4 4 0"
        by simp
      with gt show False by simp
    qed
    ultimately show ?thesis by (simp add: r_def)
  qed
qed

text \<open>
  Claim C9, as amended. Whatever the host's arithmetic, the threshold is a function of
  the histogram: grey-value lists (of values below 256) with equal histograms have equal
  thresholds. It is the lowest threshold among those whose computed between-class
  variance is the largest, the comparison being strict, and 128 when no split has a
  positive computed variance; in particular it is 128 on a list with a single value or
  none. On a list with exactly two values \<open>a < b\<close>, with arithmetic that is exact on grey
  values, it is \<open>a\<close>: the means of the two clusters are \<open>a\<close> and \<open>b\<close>, and the threshold
  equals the lower mean and lies below the upper one.
\<close>

theorem otsuThreshold_properties:
  "((\<forall>v \<in> set vs. v < 256) \<and> (\<forall>v \<in> set ws. v < 256) \<and> histogramOf vs = histogramOf ws
      \<longrightarrow> otsuThreshold ops vs = otsuThreshold ops ws)
   \<and> lowestBest ops (histogramOf vs) (int (length vs)) (sumAllOf (histogramOf vs)) 0 256 0 128
        (otsuThreshold ops vs)
   \<and> (set vs \<subseteq> {v} \<longrightarrow> otsuThreshold ops vs = 128)
   \<and> (exactOnGreyValues ops \<and> set vs = {a, b} \<and> a < b \<and> b < 256 \<longrightarrow>
        otsuThreshold ops vs = a
        \<and> meanOf (filter (\<lambda>x. x = a) vs) = real a
        \<and> meanOf (filter (\<lambda>x. x = b) vs) = real b)"
  using otsuThreshold_histogram [of vs ws ops] otsuThreshold_lowestBest [of ops vs]
    otsuThreshold_single [of vs v ops] otsuThreshold_two_values [of ops vs a b]
    meanOf_cluster [of a vs] meanOf_cluster [of b vs]
  by auto

theorem otsuThreshold_properties_witness:
  "exactOnGreyValues exactArith
   \<and> otsuThreshold exactArith [180, 50, 50] = otsuThreshold exactArith [50, 180, 50]
   \<and> otsuThreshold exactArith [7, 7] = 128
   \<and> otsuThreshold exactArith [] = 128
   \<and> otsuThreshold exactArith [50, 50, 180, 180, 180] = 50
   \<and> meanOf (filter (\<lambda>x. x = 50) [50, 50, 180, 180, 180]) = 50
   \<and> meanOf (filter (\<lambda>x. x = 180) [50, 50, 180, 180, 180]) = 180"
proof -
  have same: "histogramOf [180, 50, 50] = histogramOf [50, 180, 50]"
    by (rule histogramOf_eqI) simp
  have s1: "set [7, 7::nat] \<subseteq> {7}" and s0: "set ([]::nat list) \<subseteq> {0}"
    and s2: "set [50, 50, 180, 180, 180::nat] = {50, 180}"
    by auto
  note ex = exactArith_exactOnGreyValues
  from otsuThreshold_properties [of "[180, 50, 50]" "[50, 180, 50]" exactArith] same
  have "otsuThreshold exactArith [180, 50, 50] = otsuThreshold exactArith [50, 180, 50]"
    by simp
  moreover from otsuThreshold_properties [of "[7, 7]" _ exactArith 7] s1
  have "otsuThreshold exactArith [7, 7] = 128"
    by blast
  moreover from otsuThreshold_properties [of "[]" _ exactArith 0] s0
  have "otsuThreshold exactArith [] = 128"
    by blast
  moreover from otsuThreshold_properties [of "[50, 50, 180, 180, 180]" _ exactArith _ 50 180] s2 ex
  have "otsuThreshold exactArith [50, 50, 180, 180, 180] = 50
      \<and> meanOf (filter (\<lambda>x. x = 50) [50, 50, 180, 180, 180]) = 50
      \<and> meanOf (filter (\<lambda>x. x = 180) [50, 50, 180, 180, 180]) = 180"
    by simp
  ultimately show ?thesis
    using ex by blast
qed

text \<open>
  Two pixels, 10 and 200: the threshold is 10, which is not above the lower mean. Every
  number computed on the way (10, 200, 190, 36100) is an integer, which a double holds.
\<close>

theorem otsuThreshold_properties_counterexample:
  "set [10, 200::nat] = {10, 200}
   \<and> meanOf (filter (\<lambda>x. x = 10) [10, 200]) = 10
   \<and> meanOf (filter (\<lambda>x. x = 200) [10, 200]) = 200
   \<and> otsuThreshold exactArith [10, 200] = 10
   \<and> \<not> (meanOf (filter (\<lambda>x. x = 10) [10, 200]) < real (otsuThreshold exactArith [10, 200]))"
proof -
  have "otsuThreshold exactArith [10, 200] = 10"
    by (rule otsuThreshold_two_values [OF exactArith_exactOnGreyValues]) auto
  then show ?thesis
    by (simp add: meanOf_def)
qed

end
